theory Spec2Isabelle
  imports Main "HOL-Library.Word" "HOL-Library.List_Lexorder"
begin

section \<open>Path normalizer\<close>

text \<open>
  JavaScript strings are sequences of 16-bit code units; \<open>length\<close> counts code units.
  \<open>str\<close> embeds an ASCII literal.
\<close>

type_synonym code_unit = "16 word"
type_synonym jstring = "code_unit list"

definition str :: "string \<Rightarrow> jstring" where
  "str s = map (\<lambda>c. of_nat (of_char c)) s"

definition SLASH :: code_unit where "SLASH = 47"
definition BACKSLASH :: code_unit where "BACKSLASH = 92"

text \<open>
  Rows are identified by their position in their table: the identifiers are generated at
  insertion (\<open>uuidv7\<close>) and the operations below never delete a row. The checks that an
  identifier argument is not the empty string have no counterpart for these identifiers.
\<close>

type_synonym repository_id = nat
type_synonym commit_id = nat
type_synonym branch_id = nat

text \<open>
  The constraints of the schema that an insert or update can violate, and the errors the
  operations throw. An error whose message is built from a template carries the values the
  template interpolates: \<open>RebaseBlocked n hb ho\<close> is the message
  \<^verbatim>\<open>Rebase blocked by n conflicts. Use getConflicts(hb, ho) to inspect.\<close> and
  \<open>MergeNeedsResolutions n c\<close> is
  \<^verbatim>\<open>Merge requires resolutions for n conflict paths; insert rows into fs.files for commit c\<close>.
\<close>

datatype db_constraint =
    files_commit_id_fkey
  | files_commit_id_path_key
  | commits_repository_id_fkey
  | commits_parent_same_repo_fk
  | commits_merged_from_same_repo_fk
  | commits_one_root_per_repo_idx
  | branches_head_commit_same_repo_fk

datatype error =
    PathEmpty
  | PathTooLong
  | PathControlChar code_unit
  | PathInvalidChars
  | RootNotFile
  | CommitIdUnspecified
  | CommitNotFound
  | LeftCommitNotFound
  | RightCommitNotFound
  | CommitsInDifferentRepositories
  | NoCommonAncestor
  | BranchNotFound
  | OntoBranchNotFound
  | BranchesInDifferentRepositories
  | BranchesNeedCommits
  | RebaseBlocked nat commit_id commit_id
  | ParentRequired
  | InvalidParent
  | MergeCommitNotFound
  | TargetBranchNotFound
  | BranchAndCommitInDifferentRepositories
  | RootCommitNeedsEmptyBranch
  | ParentIsNotBranchHead
  | MergeNeedsResolutions nat commit_id
  | ConstraintViolation db_constraint

text \<open>
  \<open>validatePath\<close>. \<open>trim\<close> strips the code units of WhiteSpace and LineTerminator; the
  control characters below 32 other than tab, line feed and carriage return, and the
  characters \<^verbatim>\<open>< > : " | ? *\<close> are refused.
\<close>

definition is_white_space :: "code_unit \<Rightarrow> bool" where
  "is_white_space c \<longleftrightarrow>
     c \<in> set [9, 10, 11, 12, 13, 32, 160, 5760, 8232, 8233, 8239, 8287, 12288, 65279]
     \<or> (8192 \<le> c \<and> c \<le> 8202)"

definition trim :: "jstring \<Rightarrow> jstring" where
  "trim s = rev (dropWhile is_white_space (rev (dropWhile is_white_space s)))"

definition is_control :: "code_unit \<Rightarrow> bool" where
  "is_control c \<longleftrightarrow> c < 32 \<and> c \<noteq> 9 \<and> c \<noteq> 10 \<and> c \<noteq> 13"

definition is_windows_invalid :: "code_unit \<Rightarrow> bool" where
  "is_windows_invalid c \<longleftrightarrow> c \<in> set [60, 62, 34, 124, 63, 42, 58]"

definition validatePath :: "jstring \<Rightarrow> error + unit" where
  "validatePath path =
     (if length (trim path) = 0 then Inl PathEmpty
      else if length path > 4096 then Inl PathTooLong
      else (case find is_control path of
              Some c \<Rightarrow> Inl (PathControlChar c)
            | None \<Rightarrow>
                if list_ex is_windows_invalid path then Inl PathInvalidChars
                else Inr ()))"

text \<open>
  \<open>normalizePath\<close>. \<open>has_dslash\<close> is the test for a doubled slash and \<open>replace_dslash\<close> one
  pass of the global replacement of a doubled slash by a single one (non-overlapping
  occurrences, from the left); \<open>collapse_slashes\<close> repeats the pass while a doubled slash
  remains. \<open>canonical\<close> is the value of \<open>normalized\<close> before the final length check.
\<close>

fun has_dslash :: "jstring \<Rightarrow> bool" where
  "has_dslash (a # b # xs) = ((a = SLASH \<and> b = SLASH) \<or> has_dslash (b # xs))"
| "has_dslash xs = False"

fun replace_dslash :: "jstring \<Rightarrow> jstring" where
  "replace_dslash (a # b # xs) =
     (if a = SLASH \<and> b = SLASH then SLASH # replace_dslash xs
      else a # replace_dslash (b # xs))"
| "replace_dslash xs = xs"

lemma length_replace_dslash_le: "length (replace_dslash s) \<le> length s"
  by (induction s rule: replace_dslash.induct) auto

lemma length_replace_dslash_less:
  "has_dslash s \<Longrightarrow> length (replace_dslash s) < length s"
proof (induction s rule: replace_dslash.induct)
  case (1 a b xs)
  then show ?case
    using length_replace_dslash_le [of xs] by (auto simp: less_Suc_eq_le)
qed auto

function collapse_slashes :: "jstring \<Rightarrow> jstring" where
  "collapse_slashes s = (if has_dslash s then collapse_slashes (replace_dslash s) else s)"
  by pat_completeness auto
termination
  by (relation "measure length") (auto simp: length_replace_dslash_less)

declare collapse_slashes.simps [simp del]

definition starts_with_slash :: "jstring \<Rightarrow> bool" where
  "starts_with_slash s = (case s of [] \<Rightarrow> False | c # _ \<Rightarrow> c = SLASH)"

definition ends_with_slash :: "jstring \<Rightarrow> bool" where
  "ends_with_slash s = (s \<noteq> [] \<and> last s = SLASH)"

definition to_forward_slashes :: "jstring \<Rightarrow> jstring" where
  "to_forward_slashes s = map (\<lambda>c. if c = BACKSLASH then SLASH else c) s"

definition ensure_leading_slash :: "jstring \<Rightarrow> jstring" where
  "ensure_leading_slash s = (if starts_with_slash s then s else SLASH # s)"

definition strip_trailing_slash :: "jstring \<Rightarrow> jstring" where
  "strip_trailing_slash s = (if length s > 1 \<and> ends_with_slash s then butlast s else s)"

definition canonical :: "jstring \<Rightarrow> jstring" where
  "canonical path =
     strip_trailing_slash (collapse_slashes (ensure_leading_slash (to_forward_slashes path)))"

definition normalizePath :: "jstring \<Rightarrow> error + jstring" where
  "normalizePath path =
     (case validatePath path of
        Inl e \<Rightarrow> Inl e
      | Inr _ \<Rightarrow>
          let normalized = canonical path
          in if length normalized > 4096 then Inl PathTooLong else Inr normalized)"

definition normalizeFilePath :: "jstring \<Rightarrow> error + jstring" where
  "normalizeFilePath path =
     (case normalizePath path of
        Inl e \<Rightarrow> Inl e
      | Inr normalized \<Rightarrow> if normalized = [SLASH] then Inl RootNotFile else Inr normalized)"

section \<open>Stores, file deltas and reads\<close>

text \<open>
  A call returns a value, throws an error, or does not return: a recursive query over a
  cyclic chain of commits has no end. The tables are lists of rows in insertion order;
  \<open>created_at\<close> is left out. An operation that writes returns its outcome together with the
  store it leaves behind, also when it throws: nothing here rolls a write back.
\<close>

datatype 'a outcome = Diverges | Throws error | Returns 'a

fun and_then :: "'a outcome \<Rightarrow> ('a \<Rightarrow> 'b outcome) \<Rightarrow> 'b outcome" where
  "and_then Diverges f = Diverges"
| "and_then (Throws e) f = Throws e"
| "and_then (Returns x) f = f x"

record repository =
  repository_name :: jstring
  default_branch_id :: "branch_id option"

record commit =
  commit_repository_id :: repository_id
  parent_commit_id :: "commit_id option"
  merged_from_commit_id :: "commit_id option"
  message :: jstring

record branch =
  branch_repository_id :: repository_id
  branch_name :: jstring
  head_commit_id :: "commit_id option"

record file_entry =
  file_commit_id :: commit_id
  path :: jstring
  previous_path :: "jstring option"
  content :: jstring
  is_deleted :: bool
  is_symlink :: bool

record store =
  repositories :: "repository list"
  commits :: "commit list"
  branches :: "branch list"
  files :: "file_entry list"

text \<open>
  A row of \<open>all_operations\<close> in the snapshot query: a write to a path, or the implicit
  deletion of the path a file was moved away from.
\<close>

record operation =
  affected_path :: jstring
  op_is_deleted :: bool
  op_is_symlink :: bool
  is_move_away :: bool
  op_depth :: nat

text \<open>
  What the platform supplies: the collation of the database for \<open>order by path\<close>, the
  comparison \<open>localeCompare\<close> of the JavaScript runtime, and the row the database returns
  first among rows of equal sort key. \<open>order by depth asc limit 1\<close> names no second key, so
  which of several rows of the least depth comes back is the database's choice: it is given
  the tied rows, listed in the order in which the join of the query meets them, and answers
  with a position among them, one choice for each of the three queries that take a first
  row.
\<close>

record environment =
  db_path_le :: "jstring \<Rightarrow> jstring \<Rightarrow> bool"
  localeCompare :: "jstring \<Rightarrow> jstring \<Rightarrow> int"
  first_file_entry :: "(nat \<times> file_entry) list \<Rightarrow> nat"
  first_operation :: "operation list \<Rightarrow> nat"
  first_common :: "(commit_id \<times> nat) list \<Rightarrow> nat"

definition row :: "'a list \<Rightarrow> nat \<Rightarrow> 'a option" where
  "row table i = (if i < length table then Some (table ! i) else None)"

text \<open>
  Sorting by a comparison, stable: rows that compare equal keep their order. \<open>new_Set\<close> is
  the insertion order of a JavaScript \<open>Set\<close> built from a list.
\<close>

fun insort_by :: "('a \<Rightarrow> 'a \<Rightarrow> bool) \<Rightarrow> 'a \<Rightarrow> 'a list \<Rightarrow> 'a list" where
  "insort_by le x [] = [x]"
| "insort_by le x (y # ys) = (if le x y then x # y # ys else y # insort_by le x ys)"

definition sort_by :: "('a \<Rightarrow> 'a \<Rightarrow> bool) \<Rightarrow> 'a list \<Rightarrow> 'a list" where
  "sort_by le xs = foldr (insort_by le) xs []"

definition set_add :: "'a list \<Rightarrow> 'a \<Rightarrow> 'a list" where
  "set_add seen x = (if x \<in> set seen then seen else seen @ [x])"

definition new_Set :: "'a list \<Rightarrow> 'a list" where
  "new_Set xs = foldl set_add [] xs"

text \<open>
  The recursive query \<open>commit_tree\<close>: the commit, its parent, and so on, with their depths.
  The walk takes one step per unit of fuel and the fuel is the number of commits: a chain
  without a cycle is never longer, so running out of fuel is the query that does not end.
\<close>

fun commit_tree_from ::
  "nat \<Rightarrow> commit list \<Rightarrow> commit_id option \<Rightarrow> nat \<Rightarrow> (commit_id \<times> nat) list option" where
  "commit_tree_from fuel cs None depth = Some []"
| "commit_tree_from 0 cs (Some c) depth = (if c < length cs then None else Some [])"
| "commit_tree_from (Suc fuel) cs (Some c) depth =
     (if c < length cs
      then map_option ((#) (c, depth))
             (commit_tree_from fuel cs (parent_commit_id (cs ! c)) (depth + 1))
      else Some [])"

definition commit_tree :: "store \<Rightarrow> commit_id \<Rightarrow> (commit_id \<times> nat) list option" where
  "commit_tree s commitId = commit_tree_from (length (commits s)) (commits s) (Some commitId) 0"

text \<open>
  \<open>order by key asc limit 1\<close>: no row when there is none, and otherwise one of the rows
  whose key is least, the one at the position the database chooses among them (the position
  is taken modulo their number, so that every choice is a tied row).
\<close>

definition least_rows :: "('a \<Rightarrow> nat) \<Rightarrow> 'a list \<Rightarrow> 'a list" where
  "least_rows key rows = filter (\<lambda>r. list_all (\<lambda>other. key r \<le> key other) rows) rows"

definition order_by_limit_1 :: "('a list \<Rightarrow> nat) \<Rightarrow> ('a \<Rightarrow> nat) \<Rightarrow> 'a list \<Rightarrow> 'a option" where
  "order_by_limit_1 choice key rows =
     (let tied = least_rows key rows
      in if tied = [] then None else Some (tied ! (choice tied mod length tied)))"

definition matches_path :: "jstring \<Rightarrow> file_entry \<Rightarrow> bool" where
  "matches_path p f \<longleftrightarrow> path f = p \<or> previous_path f = Some p"

definition files_of_commit :: "store \<Rightarrow> commit_id \<Rightarrow> file_entry list" where
  "files_of_commit s c = filter (\<lambda>f. file_commit_id f = c) (files s)"

definition file_entries :: "store \<Rightarrow> (commit_id \<times> nat) list \<Rightarrow> jstring \<Rightarrow> (nat \<times> file_entry) list" where
  "file_entries s ct p =
     concat (map (\<lambda>(c, depth). map (Pair depth) (filter (matches_path p) (files_of_commit s c))) ct)"

definition select_file_entry ::
  "environment \<Rightarrow> store \<Rightarrow> commit_id \<Rightarrow> jstring \<Rightarrow> file_entry option option" where
  "select_file_entry env s commitId p =
     map_option
       (\<lambda>ct. map_option snd (order_by_limit_1 (first_file_entry env) fst (file_entries s ct p)))
       (commit_tree s commitId)"

definition readFile :: "environment \<Rightarrow> store \<Rightarrow> commit_id \<Rightarrow> jstring \<Rightarrow> jstring option outcome" where
  "readFile env s commitId p =
     (case row (commits s) commitId of
        None \<Rightarrow> Throws CommitNotFound
      | Some _ \<Rightarrow>
          (case normalizePath p of
             Inl e \<Rightarrow> Throws e
           | Inr normalizedPath \<Rightarrow>
               (case select_file_entry env s commitId normalizedPath of
                  None \<Rightarrow> Diverges
                | Some None \<Rightarrow> Returns None
                | Some (Some r) \<Rightarrow>
                    if is_deleted r then Returns None
                    else if previous_path r = Some normalizedPath \<and> path r \<noteq> normalizedPath
                    then Returns None
                    else Returns (Some (content r)))))"

text \<open>
  \<open>writeFile\<close>. An option left out is \<open>None\<close>. The content has the declared type
  \<open>string\<close>, so the check for a null content has no counterpart. A previous path that is the
  empty string counts as absent, as the test of its truthiness does. The insert checks the
  foreign key to the commit and \<open>unique (commit_id, path)\<close>.
\<close>

record write_options =
  opt_isSymlink :: "bool option"
  opt_isDeleted :: "bool option"
  opt_previousPath :: "jstring option"

definition no_options :: write_options where
  "no_options = \<lparr>opt_isSymlink = None, opt_isDeleted = None, opt_previousPath = None\<rparr>"

definition insert_file :: "store \<Rightarrow> file_entry \<Rightarrow> file_entry outcome \<times> store" where
  "insert_file s f =
     (if \<not> file_commit_id f < length (commits s)
      then (Throws (ConstraintViolation files_commit_id_fkey), s)
      else if list_ex (\<lambda>g. file_commit_id g = file_commit_id f \<and> path g = path f) (files s)
      then (Throws (ConstraintViolation files_commit_id_path_key), s)
      else (Returns f, s\<lparr>files := files s @ [f]\<rparr>))"

definition writeFile ::
  "store \<Rightarrow> commit_id \<Rightarrow> jstring \<Rightarrow> jstring \<Rightarrow> write_options \<Rightarrow> file_entry outcome \<times> store" where
  "writeFile s commitId p c options =
     (case normalizeFilePath p of
        Inl e \<Rightarrow> (Throws e, s)
      | Inr normalizedPath \<Rightarrow>
          (case (case opt_previousPath options of
                   None \<Rightarrow> Inr None
                 | Some pp \<Rightarrow> if pp = [] then Inr None else map_sum id Some (normalizeFilePath pp)) of
             Inl e \<Rightarrow> (Throws e, s)
           | Inr normalizedPreviousPath \<Rightarrow>
               let isDeleted = (case opt_isDeleted options of None \<Rightarrow> False | Some b \<Rightarrow> b);
                   isSymlink = (case opt_isSymlink options of None \<Rightarrow> False | Some b \<Rightarrow> b)
               in (case (if isDeleted then Inr []
                         else if isSymlink then normalizeFilePath c else Inr c) of
                     Inl e \<Rightarrow> (Throws e, s)
                   | Inr normalizedContent \<Rightarrow>
                       insert_file s
                         \<lparr>file_commit_id = commitId, path = normalizedPath,
                          previous_path = normalizedPreviousPath, content = normalizedContent,
                          is_deleted = isDeleted,
                          is_symlink = (if isDeleted then False else isSymlink)\<rparr>)))"

definition moveFile ::
  "store \<Rightarrow> commit_id \<Rightarrow> jstring \<Rightarrow> jstring \<Rightarrow> jstring \<Rightarrow> bool option
     \<Rightarrow> file_entry outcome \<times> store" where
  "moveFile s commitId fromPath toPath c isSymlink =
     writeFile s commitId toPath c
       \<lparr>opt_isSymlink = isSymlink, opt_isDeleted = None, opt_previousPath = Some fromPath\<rparr>"

definition deleteFile :: "store \<Rightarrow> commit_id \<Rightarrow> jstring \<Rightarrow> file_entry outcome \<times> store" where
  "deleteFile s commitId p =
     writeFile s commitId p []
       \<lparr>opt_isSymlink = None, opt_isDeleted = Some True, opt_previousPath = None\<rparr>"

record file_input =
  in_path :: jstring
  in_content :: jstring
  in_isSymlink :: "bool option"
  in_isDeleted :: "bool option"
  in_previousPath :: "jstring option"

fun writeFiles :: "store \<Rightarrow> commit_id \<Rightarrow> file_input list \<Rightarrow> file_entry list outcome \<times> store" where
  "writeFiles s commitId [] = (Returns [], s)"
| "writeFiles s commitId (f # fs) =
     (case writeFile s commitId (in_path f) (in_content f)
             \<lparr>opt_isSymlink = in_isSymlink f, opt_isDeleted = in_isDeleted f,
              opt_previousPath = in_previousPath f\<rparr> of
        (Returns entry, s') \<Rightarrow>
          (case writeFiles s' commitId fs of
             (Returns entries, s'') \<Rightarrow> (Returns (entry # entries), s'')
           | (Throws e, s'') \<Rightarrow> (Throws e, s'')
           | (Diverges, s'') \<Rightarrow> (Diverges, s''))
      | (Throws e, s') \<Rightarrow> (Throws e, s')
      | (Diverges, s') \<Rightarrow> (Diverges, s'))"

section \<open>Snapshot resolver\<close>

text \<open>
  \<open>getCommitSnapshot\<close>, called without a path prefix as every operation below calls it.
  \<open>all_operations\<close> is the union of the writes and of the implicit deletions of the paths
  moved away from; \<open>ranked_first\<close> is the row of rank 1 of a path: \<open>row_number()\<close> orders
  a partition by depth alone, so among operations of the least depth the row of rank 1 is
  the database's choice.
\<close>

definition write_operation :: "nat \<Rightarrow> file_entry \<Rightarrow> operation" where
  "write_operation depth f =
     \<lparr>affected_path = path f, op_is_deleted = is_deleted f, op_is_symlink = is_symlink f,
      is_move_away = False, op_depth = depth\<rparr>"

definition move_away_operation :: "nat \<Rightarrow> file_entry \<Rightarrow> operation list" where
  "move_away_operation depth f =
     (case previous_path f of
        None \<Rightarrow> []
      | Some pp \<Rightarrow>
          [\<lparr>affected_path = pp, op_is_deleted = True, op_is_symlink = False,
            is_move_away = True, op_depth = depth\<rparr>])"

definition all_operations :: "store \<Rightarrow> (commit_id \<times> nat) list \<Rightarrow> operation list" where
  "all_operations s ct =
     concat (map (\<lambda>(c, depth). map (write_operation depth) (files_of_commit s c)) ct)
     @ concat (map (\<lambda>(c, depth). concat (map (move_away_operation depth) (files_of_commit s c))) ct)"

definition operations_on :: "jstring \<Rightarrow> operation list \<Rightarrow> operation list" where
  "operations_on p ops = filter (\<lambda>op. affected_path op = p) ops"

definition ranked_first :: "environment \<Rightarrow> operation list \<Rightarrow> jstring \<Rightarrow> operation option" where
  "ranked_first env ops p = order_by_limit_1 (first_operation env) op_depth (operations_on p ops)"

record snapshot_entry =
  se_path :: jstring
  se_isSymlink :: bool

record snapshot_entry_with_content = snapshot_entry +
  se_content :: jstring

definition snapshot_rows :: "environment \<Rightarrow> operation list \<Rightarrow> snapshot_entry list" where
  "snapshot_rows env ops =
     map (\<lambda>op. \<lparr>se_path = affected_path op, se_isSymlink = op_is_symlink op\<rparr>)
       (filter (\<lambda>op. \<not> op_is_deleted op)
          (List.map_filter (ranked_first env ops) (new_Set (map affected_path ops))))"

definition getCommitSnapshot ::
  "environment \<Rightarrow> store \<Rightarrow> commit_id \<Rightarrow> snapshot_entry list outcome" where
  "getCommitSnapshot env s commitId =
     (case row (commits s) commitId of
        None \<Rightarrow> Throws CommitNotFound
      | Some commitRow \<Rightarrow>
          (case row (repositories s) (commit_repository_id commitRow) of
             None \<Rightarrow> Throws CommitNotFound
           | Some _ \<Rightarrow>
               (case commit_tree s commitId of
                  None \<Rightarrow> Diverges
                | Some ct \<Rightarrow>
                    Returns (sort_by (\<lambda>a b. db_path_le env (se_path a) (se_path b))
                               (snapshot_rows env (all_operations s ct))))))"

fun resolve_contents ::
  "environment \<Rightarrow> store \<Rightarrow> commit_id \<Rightarrow> snapshot_entry list
     \<Rightarrow> snapshot_entry_with_content list outcome" where
  "resolve_contents env s commitId [] = Returns []"
| "resolve_contents env s commitId (entry # entries) =
     and_then (readFile env s commitId (se_path entry)) (\<lambda>c.
       and_then (resolve_contents env s commitId entries) (\<lambda>results.
         Returns (\<lparr>se_path = se_path entry, se_isSymlink = se_isSymlink entry,
                    se_content = (case c of None \<Rightarrow> [] | Some t \<Rightarrow> t)\<rparr> # results)))"

definition getCommitSnapshotWithContent ::
  "environment \<Rightarrow> store \<Rightarrow> commit_id \<Rightarrow> snapshot_entry_with_content list outcome" where
  "getCommitSnapshotWithContent env s commitId =
     and_then (getCommitSnapshot env s commitId) (resolve_contents env s commitId)"

section \<open>Merge-base finder\<close>

text \<open>
  \<open>getMergeBase\<close>. \<open>ancestors\<close> is the recursive query over parent and merged-from links,
  one row for every path to an ancestor; \<open>common\<close> is the join of the left ancestors with
  the right ancestors, grouped by commit with the least sum of depths, one row for each
  common ancestor in the order the join meets them. \<open>order by total_depth asc limit 1\<close>
  returns one of the rows of least total depth, the database's choice among them;
  \<open>merge_base_candidates\<close> are the commits of these rows.
\<close>

definition links :: "commit \<Rightarrow> commit_id list" where
  "links k = remdups (List.map_filter id [parent_commit_id k, merged_from_commit_id k])"

fun ancestors_from ::
  "nat \<Rightarrow> commit list \<Rightarrow> commit_id \<Rightarrow> nat \<Rightarrow> (commit_id \<times> nat) list option" where
  "ancestors_from 0 cs c depth = (if c < length cs then None else Some [])"
| "ancestors_from (Suc fuel) cs c depth =
     (if c < length cs
      then map_option (\<lambda>rs. (c, depth) # concat rs)
             (those (map (\<lambda>p. ancestors_from fuel cs p (depth + 1)) (links (cs ! c))))
      else Some [])"

definition ancestors :: "store \<Rightarrow> commit_id \<Rightarrow> (commit_id \<times> nat) list option" where
  "ancestors s c = ancestors_from (length (commits s)) (commits s) c 0"

definition total_depths :: "(commit_id \<times> nat) list \<Rightarrow> (commit_id \<times> nat) list \<Rightarrow> commit_id \<Rightarrow> nat list" where
  "total_depths la ra i =
     concat (map (\<lambda>(l, dl). concat (map (\<lambda>(r, dr). if l = i \<and> r = i then [dl + dr] else []) ra)) la)"

definition common :: "(commit_id \<times> nat) list \<Rightarrow> (commit_id \<times> nat) list \<Rightarrow> (commit_id \<times> nat) list" where
  "common la ra =
     map (\<lambda>i. (i, Min (set (total_depths la ra i))))
       (new_Set (filter (\<lambda>i. i \<in> set (map fst ra)) (map fst la)))"

definition getMergeBase :: "environment \<Rightarrow> store \<Rightarrow> commit_id \<Rightarrow> commit_id \<Rightarrow> commit_id outcome" where
  "getMergeBase env s leftCommitId rightCommitId =
     (case row (commits s) leftCommitId of
        None \<Rightarrow> Throws LeftCommitNotFound
      | Some leftRow \<Rightarrow>
          (case row (commits s) rightCommitId of
             None \<Rightarrow> Throws RightCommitNotFound
           | Some rightRow \<Rightarrow>
               if commit_repository_id leftRow \<noteq> commit_repository_id rightRow
               then Throws CommitsInDifferentRepositories
               else (case (ancestors s leftCommitId, ancestors s rightCommitId) of
                       (Some la, Some ra) \<Rightarrow>
                         (case order_by_limit_1 (first_common env) snd (common la ra) of
                            None \<Rightarrow> Throws NoCommonAncestor
                          | Some baseRow \<Rightarrow> Returns (fst baseRow))
                     | _ \<Rightarrow> Diverges)))"



definition is_ancestor :: "store \<Rightarrow> commit_id \<Rightarrow> commit_id \<Rightarrow> bool" where
  "is_ancestor s a c =
     (case ancestors s c of None \<Rightarrow> False | Some rows \<Rightarrow> a \<in> set (map fst rows))"

section \<open>Conflict detector\<close>

text \<open>
  \<open>getConflicts\<close>. \<open>new_Map\<close> is a JavaScript \<open>Map\<close> built from a list of entries, a later
  entry replacing an earlier one of the same key; \<open>conflict_at\<close> is the body of the loop over
  all paths.
\<close>

datatype conflict_kind = delete_modify | add_add | modify_modify

record conflict_entry =
  ce_mergeBaseCommitId :: commit_id
  ce_path :: jstring
  baseExists :: bool
  baseIsSymlink :: bool
  baseContent :: "jstring option"
  leftExists :: bool
  leftIsSymlink :: bool
  leftContent :: "jstring option"
  rightExists :: bool
  rightIsSymlink :: bool
  rightContent :: "jstring option"
  conflictKind :: conflict_kind

definition new_Map :: "('k \<times> 'v) list \<Rightarrow> 'k \<Rightarrow> 'v option" where
  "new_Map entries = map_of (rev entries)"

definition snapshot_map ::
  "snapshot_entry_with_content list \<Rightarrow> jstring \<Rightarrow> snapshot_entry_with_content option" where
  "snapshot_map snapshot = new_Map (map (\<lambda>e. (se_path e, e)) snapshot)"

definition exists_in :: "snapshot_entry_with_content option \<Rightarrow> bool" where
  "exists_in e = (e \<noteq> None)"

definition symlink_or_false :: "snapshot_entry_with_content option \<Rightarrow> bool" where
  "symlink_or_false e = (case e of None \<Rightarrow> False | Some x \<Rightarrow> se_isSymlink x)"

definition content_or_null :: "snapshot_entry_with_content option \<Rightarrow> jstring option" where
  "content_or_null e = map_option se_content e"

definition content_or_empty :: "snapshot_entry_with_content option \<Rightarrow> jstring" where
  "content_or_empty e = (case e of None \<Rightarrow> [] | Some x \<Rightarrow> se_content x)"

definition differs ::
  "snapshot_entry_with_content option \<Rightarrow> snapshot_entry_with_content option \<Rightarrow> bool" where
  "differs a b \<longleftrightarrow>
     exists_in a \<noteq> exists_in b \<or> symlink_or_false a \<noteq> symlink_or_false b
     \<or> content_or_null a \<noteq> content_or_null b"

definition classify :: "bool \<Rightarrow> bool \<Rightarrow> bool \<Rightarrow> conflict_kind" where
  "classify baseE leftE rightE =
     (if baseE \<and> (\<not> leftE \<or> \<not> rightE) then delete_modify
      else if \<not> baseE \<and> leftE \<and> rightE then add_add
      else modify_modify)"

definition conflict_at ::
  "commit_id \<Rightarrow> (jstring \<Rightarrow> snapshot_entry_with_content option)
     \<Rightarrow> (jstring \<Rightarrow> snapshot_entry_with_content option)
     \<Rightarrow> (jstring \<Rightarrow> snapshot_entry_with_content option) \<Rightarrow> jstring \<Rightarrow> conflict_entry option" where
  "conflict_at mergeBase baseMap leftMap rightMap p =
     (let base = baseMap p; left = leftMap p; right = rightMap p;
          leftChanged = differs left base;
          rightChanged = differs right base;
          sidesDiffer = differs left right
      in if leftChanged \<and> rightChanged \<and> sidesDiffer
         then Some \<lparr>ce_mergeBaseCommitId = mergeBase, ce_path = p,
                    baseExists = exists_in base, baseIsSymlink = symlink_or_false base,
                    baseContent = content_or_null base,
                    leftExists = exists_in left, leftIsSymlink = symlink_or_false left,
                    leftContent = content_or_null left,
                    rightExists = exists_in right, rightIsSymlink = symlink_or_false right,
                    rightContent = content_or_null right,
                    conflictKind = classify (exists_in base) (exists_in left) (exists_in right)\<rparr>
         else None)"

definition all_paths ::
  "snapshot_entry_with_content list \<Rightarrow> snapshot_entry_with_content list
     \<Rightarrow> snapshot_entry_with_content list \<Rightarrow> jstring list" where
  "all_paths a b c = new_Set (map se_path a @ map se_path b @ map se_path c)"

definition detect_conflicts ::
  "environment \<Rightarrow> commit_id \<Rightarrow> snapshot_entry_with_content list
     \<Rightarrow> snapshot_entry_with_content list \<Rightarrow> snapshot_entry_with_content list
     \<Rightarrow> conflict_entry list" where
  "detect_conflicts env mergeBase baseSnapshot leftSnapshot rightSnapshot =
     sort_by (\<lambda>a b. localeCompare env (ce_path a) (ce_path b) \<le> 0)
       (List.map_filter
          (conflict_at mergeBase (snapshot_map baseSnapshot) (snapshot_map leftSnapshot)
             (snapshot_map rightSnapshot))
          (all_paths baseSnapshot leftSnapshot rightSnapshot))"

definition getConflicts ::
  "environment \<Rightarrow> store \<Rightarrow> commit_id \<Rightarrow> commit_id \<Rightarrow> conflict_entry list outcome" where
  "getConflicts env s leftCommitId rightCommitId =
     and_then (getMergeBase env s leftCommitId rightCommitId) (\<lambda>mergeBaseCommitId.
     and_then (getCommitSnapshotWithContent env s mergeBaseCommitId) (\<lambda>baseSnapshot.
     and_then (getCommitSnapshotWithContent env s leftCommitId) (\<lambda>leftSnapshot.
     and_then (getCommitSnapshotWithContent env s rightCommitId) (\<lambda>rightSnapshot.
       Returns (detect_conflicts env mergeBaseCommitId baseSnapshot leftSnapshot rightSnapshot)))))"

text \<open>
  The comparison in the specification's words: the state of a path in a snapshot is the
  triple of existence, symlink flag and content; and what \<open>sort\<close> needs of its comparator.
\<close>

definition path_state ::
  "snapshot_entry_with_content list \<Rightarrow> jstring \<Rightarrow> bool \<times> bool \<times> jstring option" where
  "path_state snapshot p =
     (case snapshot_map snapshot p of
        None \<Rightarrow> (False, False, None)
      | Some e \<Rightarrow> (True, se_isSymlink e, Some (se_content e)))"

definition path_exists :: "snapshot_entry_with_content list \<Rightarrow> jstring \<Rightarrow> bool" where
  "path_exists snapshot p \<longleftrightarrow> p \<in> set (map se_path snapshot)"

definition comparator_total :: "(jstring \<Rightarrow> jstring \<Rightarrow> int) \<Rightarrow> bool" where
  "comparator_total cmp \<longleftrightarrow> (\<forall>a b. cmp a b \<le> 0 \<or> cmp b a \<le> 0)"

definition comparator_transitive :: "(jstring \<Rightarrow> jstring \<Rightarrow> int) \<Rightarrow> bool" where
  "comparator_transitive cmp \<longleftrightarrow> (\<forall>a b c. cmp a b \<le> 0 \<longrightarrow> cmp b c \<le> 0 \<longrightarrow> cmp a c \<le> 0)"

section \<open>Branch heads and commits\<close>

text \<open>
  \<open>updateBranchHead\<close> updates no row when the branch does not exist, and violates the foreign
  key when the commit is not a commit of the branch's repository. In \<open>createCommit\<close> a parent
  left out is \<open>None\<close>, a null parent \<open>Some None\<close>.
\<close>

definition updateBranchHead :: "store \<Rightarrow> branch_id \<Rightarrow> commit_id \<Rightarrow> unit outcome \<times> store" where
  "updateBranchHead s branchId headCommitId =
     (case row (branches s) branchId of
        None \<Rightarrow> (Returns (), s)
      | Some b \<Rightarrow>
          (case row (commits s) headCommitId of
             None \<Rightarrow> (Throws (ConstraintViolation branches_head_commit_same_repo_fk), s)
           | Some k \<Rightarrow>
               if commit_repository_id k \<noteq> branch_repository_id b
               then (Throws (ConstraintViolation branches_head_commit_same_repo_fk), s)
               else (Returns (),
                     s\<lparr>branches := (branches s)[branchId := b\<lparr>head_commit_id := Some headCommitId\<rparr>]\<rparr>)))"

definition default_branch_head :: "store \<Rightarrow> repository_id \<Rightarrow> commit_id option" where
  "default_branch_head s repositoryId =
     (case row (repositories s) repositoryId of
        None \<Rightarrow> None
      | Some r \<Rightarrow>
          (case default_branch_id r of
             None \<Rightarrow> None
           | Some b \<Rightarrow> (case row (branches s) b of None \<Rightarrow> None | Some br \<Rightarrow> head_commit_id br)))"

definition in_repository :: "store \<Rightarrow> repository_id \<Rightarrow> commit_id \<Rightarrow> bool" where
  "in_repository s repositoryId c =
     (case row (commits s) c of None \<Rightarrow> False | Some k \<Rightarrow> commit_repository_id k = repositoryId)"

definition insert_commit :: "store \<Rightarrow> commit \<Rightarrow> (commit_id \<times> commit) outcome \<times> store" where
  "insert_commit s k =
     (if row (repositories s) (commit_repository_id k) = None
      then (Throws (ConstraintViolation commits_repository_id_fkey), s)
      else if (case parent_commit_id k of
                 None \<Rightarrow> False
               | Some p \<Rightarrow> \<not> in_repository s (commit_repository_id k) p)
      then (Throws (ConstraintViolation commits_parent_same_repo_fk), s)
      else if (case merged_from_commit_id k of
                 None \<Rightarrow> False
               | Some m \<Rightarrow> \<not> in_repository s (commit_repository_id k) m)
      then (Throws (ConstraintViolation commits_merged_from_same_repo_fk), s)
      else if parent_commit_id k = None
              \<and> list_ex (\<lambda>c. commit_repository_id c = commit_repository_id k
                                \<and> parent_commit_id c = None) (commits s)
      then (Throws (ConstraintViolation commits_one_root_per_repo_idx), s)
      else (Returns (length (commits s), k), s\<lparr>commits := commits s @ [k]\<rparr>))"

definition createCommit ::
  "store \<Rightarrow> repository_id \<Rightarrow> jstring \<Rightarrow> commit_id option option \<Rightarrow> commit_id option
     \<Rightarrow> (commit_id \<times> commit) outcome \<times> store" where
  "createCommit s repositoryId msg parentCommitId mergedFromCommitId =
     (case (case parentCommitId of
              Some p \<Rightarrow> Inr p
            | None \<Rightarrow>
                (case default_branch_head s repositoryId of
                   Some h \<Rightarrow> Inr (Some h)
                 | None \<Rightarrow>
                     if list_ex (\<lambda>c. commit_repository_id c = repositoryId) (commits s)
                     then Inl ParentRequired else Inr None)) of
        Inl e \<Rightarrow> (Throws e, s)
      | Inr resolvedParentCommitId \<Rightarrow>
          if (case resolvedParentCommitId of
                None \<Rightarrow> False
              | Some p \<Rightarrow> \<not> in_repository s repositoryId p)
          then (Throws InvalidParent, s)
          else insert_commit s
                 \<lparr>commit_repository_id = repositoryId, parent_commit_id = resolvedParentCommitId,
                  merged_from_commit_id = mergedFromCommitId, message = msg\<rparr>)"

section \<open>Rebase engine\<close>

datatype operation_kind =
  noop | already_up_to_date | fast_forward | rebased | merged | merged_with_conflicts_resolved

record rebase_result =
  rr_operation :: operation_kind
  rr_repositoryId :: repository_id
  rr_branchId :: branch_id
  rr_ontoBranchId :: branch_id
  rr_mergeBaseCommitId :: "commit_id option"
  rr_previousBranchHeadCommitId :: "commit_id option"
  rr_ontoHeadCommitId :: "commit_id option"
  rr_rebasedCommitId :: "commit_id option"
  rr_newBranchHeadCommitId :: "commit_id option"
  rr_appliedFileCount :: nat

text \<open>
  The body of the loop that computes the patch: the state wanted for a path is the branch's
  when the branch changed it from the base, else the onto head's, and a write or a tombstone
  is emitted when that differs from the onto head's state. \<open>finalizeCommit\<close> runs the same
  computation with the target in the place of onto and the merged-from commit in the place
  of the branch.
\<close>

definition patch_entry ::
  "(jstring \<Rightarrow> snapshot_entry_with_content option)
     \<Rightarrow> (jstring \<Rightarrow> snapshot_entry_with_content option)
     \<Rightarrow> (jstring \<Rightarrow> snapshot_entry_with_content option) \<Rightarrow> jstring \<Rightarrow> file_input option" where
  "patch_entry baseMap ontoMap branchMap p =
     (let base = baseMap p; onto = ontoMap p; branch = branchMap p;
          branchChanged =
            (exists_in branch \<noteq> exists_in base
             \<or> map_option se_isSymlink branch \<noteq> map_option se_isSymlink base
             \<or> map_option se_content branch \<noteq> map_option se_content base);
          desiredExists = (if branchChanged then exists_in branch else exists_in onto);
          desiredIsSymlink =
            (if branchChanged then symlink_or_false branch else symlink_or_false onto);
          desiredContent =
            (if branchChanged then content_or_empty branch else content_or_empty onto);
          ontoExists = exists_in onto;
          ontoIsSymlink = symlink_or_false onto;
          ontoContent = content_or_empty onto;
          needDelete = (\<not> desiredExists \<and> ontoExists);
          needWrite =
            (desiredExists
             \<and> (\<not> ontoExists \<or> ontoIsSymlink \<noteq> desiredIsSymlink \<or> ontoContent \<noteq> desiredContent))
      in if needDelete
         then Some \<lparr>in_path = p, in_content = [], in_isSymlink = Some False,
                    in_isDeleted = Some True, in_previousPath = None\<rparr>
         else if needWrite
         then Some \<lparr>in_path = p, in_content = desiredContent, in_isSymlink = Some desiredIsSymlink,
                    in_isDeleted = Some False, in_previousPath = None\<rparr>
         else None)"

definition files_to_write ::
  "snapshot_entry_with_content list \<Rightarrow> snapshot_entry_with_content list
     \<Rightarrow> snapshot_entry_with_content list \<Rightarrow> file_input list" where
  "files_to_write baseSnapshot ontoSnapshot branchSnapshot =
     List.map_filter
       (patch_entry (snapshot_map baseSnapshot) (snapshot_map ontoSnapshot)
          (snapshot_map branchSnapshot))
       (all_paths baseSnapshot ontoSnapshot branchSnapshot)"

definition rebase_patch ::
  "environment \<Rightarrow> store \<Rightarrow> commit_id \<Rightarrow> commit_id \<Rightarrow> commit_id \<Rightarrow> file_input list outcome" where
  "rebase_patch env s mergeBaseCommitId ontoHeadCommitId branchHeadCommitId =
     and_then (getCommitSnapshotWithContent env s mergeBaseCommitId) (\<lambda>baseSnapshot.
     and_then (getCommitSnapshotWithContent env s ontoHeadCommitId) (\<lambda>ontoSnapshot.
     and_then (getCommitSnapshotWithContent env s branchHeadCommitId) (\<lambda>branchSnapshot.
       Returns (files_to_write baseSnapshot ontoSnapshot branchSnapshot))))"

definition rebase_fast_forward ::
  "store \<Rightarrow> rebase_result \<Rightarrow> branch_id \<Rightarrow> commit_id \<Rightarrow> rebase_result outcome \<times> store" where
  "rebase_fast_forward s result branchId ontoHeadCommitId =
     (case updateBranchHead s branchId ontoHeadCommitId of
        (Returns _, s') \<Rightarrow>
          (Returns (result\<lparr>rr_operation := fast_forward,
                           rr_newBranchHeadCommitId := Some ontoHeadCommitId\<rparr>), s')
      | (Throws e, s') \<Rightarrow> (Throws e, s')
      | (Diverges, s') \<Rightarrow> (Diverges, s'))"

definition rebase_apply ::
  "store \<Rightarrow> rebase_result \<Rightarrow> branch_id \<Rightarrow> commit_id \<Rightarrow> jstring option \<Rightarrow> file_input list
     \<Rightarrow> rebase_result outcome \<times> store" where
  "rebase_apply s result branchId ontoHeadCommitId msg filesToWrite =
     (case createCommit s (rr_repositoryId result) (case msg of None \<Rightarrow> str ''rebase'' | Some m \<Rightarrow> m)
             (Some (Some ontoHeadCommitId)) None of
        (Throws e, s1) \<Rightarrow> (Throws e, s1)
      | (Diverges, s1) \<Rightarrow> (Diverges, s1)
      | (Returns rebasedCommit, s1) \<Rightarrow>
          (case writeFiles s1 (fst rebasedCommit) filesToWrite of
             (Throws e, s2) \<Rightarrow> (Throws e, s2)
           | (Diverges, s2) \<Rightarrow> (Diverges, s2)
           | (Returns _, s2) \<Rightarrow>
               (case updateBranchHead s2 branchId (fst rebasedCommit) of
                  (Throws e, s3) \<Rightarrow> (Throws e, s3)
                | (Diverges, s3) \<Rightarrow> (Diverges, s3)
                | (Returns _, s3) \<Rightarrow>
                    (Returns (result\<lparr>rr_operation := rebased,
                                     rr_rebasedCommitId := Some (fst rebasedCommit),
                                     rr_newBranchHeadCommitId := Some (fst rebasedCommit),
                                     rr_appliedFileCount := length filesToWrite\<rparr>), s3))))"

definition rebase_heads ::
  "environment \<Rightarrow> store \<Rightarrow> repository_id \<Rightarrow> branch_id \<Rightarrow> branch_id \<Rightarrow> jstring option
     \<Rightarrow> commit_id \<Rightarrow> commit_id \<Rightarrow> rebase_result outcome \<times> store" where
  "rebase_heads env s repositoryId branchId ontoBranchId msg branchHeadCommitId ontoHeadCommitId =
     (case getMergeBase env s branchHeadCommitId ontoHeadCommitId of
        Diverges \<Rightarrow> (Diverges, s)
      | Throws e \<Rightarrow> (Throws e, s)
      | Returns mergeBaseCommitId \<Rightarrow>
          let result =
                \<lparr>rr_operation = already_up_to_date, rr_repositoryId = repositoryId,
                 rr_branchId = branchId, rr_ontoBranchId = ontoBranchId,
                 rr_mergeBaseCommitId = Some mergeBaseCommitId,
                 rr_previousBranchHeadCommitId = Some branchHeadCommitId,
                 rr_ontoHeadCommitId = Some ontoHeadCommitId, rr_rebasedCommitId = None,
                 rr_newBranchHeadCommitId = Some branchHeadCommitId, rr_appliedFileCount = 0\<rparr>
          in if mergeBaseCommitId = ontoHeadCommitId then (Returns result, s)
             else if mergeBaseCommitId = branchHeadCommitId
             then rebase_fast_forward s result branchId ontoHeadCommitId
             else (case getConflicts env s branchHeadCommitId ontoHeadCommitId of
                     Diverges \<Rightarrow> (Diverges, s)
                   | Throws e \<Rightarrow> (Throws e, s)
                   | Returns conflicts \<Rightarrow>
                       if length conflicts > 0
                       then (Throws (RebaseBlocked (length conflicts) branchHeadCommitId
                                       ontoHeadCommitId), s)
                       else (case rebase_patch env s mergeBaseCommitId ontoHeadCommitId
                                    branchHeadCommitId of
                               Diverges \<Rightarrow> (Diverges, s)
                             | Throws e \<Rightarrow> (Throws e, s)
                             | Returns filesToWrite \<Rightarrow>
                                 if length filesToWrite = 0
                                 then rebase_fast_forward s result branchId ontoHeadCommitId
                                 else rebase_apply s result branchId ontoHeadCommitId msg
                                        filesToWrite)))"

definition rebaseBranch ::
  "environment \<Rightarrow> store \<Rightarrow> branch_id \<Rightarrow> branch_id \<Rightarrow> jstring option
     \<Rightarrow> rebase_result outcome \<times> store" where
  "rebaseBranch env s branchId ontoBranchId msg =
     (case row (branches s) branchId of
        None \<Rightarrow> (Throws BranchNotFound, s)
      | Some branchRow \<Rightarrow>
          (case row (branches s) ontoBranchId of
             None \<Rightarrow> (Throws OntoBranchNotFound, s)
           | Some ontoRow \<Rightarrow>
               if branch_repository_id branchRow \<noteq> branch_repository_id ontoRow
               then (Throws BranchesInDifferentRepositories, s)
               else if branchId = ontoBranchId
               then (Returns \<lparr>rr_operation = noop,
                               rr_repositoryId = branch_repository_id branchRow,
                               rr_branchId = branchId, rr_ontoBranchId = ontoBranchId,
                               rr_mergeBaseCommitId = head_commit_id branchRow,
                               rr_previousBranchHeadCommitId = head_commit_id branchRow,
                               rr_ontoHeadCommitId = head_commit_id ontoRow,
                               rr_rebasedCommitId = None,
                               rr_newBranchHeadCommitId = head_commit_id branchRow,
                               rr_appliedFileCount = 0\<rparr>, s)
               else (case (head_commit_id branchRow, head_commit_id ontoRow) of
                       (Some branchHeadCommitId, Some ontoHeadCommitId) \<Rightarrow>
                         rebase_heads env s (branch_repository_id branchRow) branchId ontoBranchId
                           msg branchHeadCommitId ontoHeadCommitId
                     | _ \<Rightarrow> (Throws BranchesNeedCommits, s))))"

section \<open>Merge finalizer\<close>

record finalize_result =
  fr_operation :: operation_kind
  fr_repositoryId :: repository_id
  fr_targetBranchId :: "branch_id option"
  fr_mergeBaseCommitId :: "commit_id option"
  fr_previousTargetHeadCommitId :: "commit_id option"
  fr_sourceCommitId :: "commit_id option"
  fr_mergeCommitId :: commit_id
  fr_newTargetHeadCommitId :: "commit_id option"
  fr_appliedFileCount :: nat

definition target_head ::
  "store \<Rightarrow> commit \<Rightarrow> branch_id option \<Rightarrow> commit_id option outcome" where
  "target_head s mergeCommitRow targetBranchId =
     (case targetBranchId of
        None \<Rightarrow> Returns (parent_commit_id mergeCommitRow)
      | Some t \<Rightarrow>
          (case row (branches s) t of
             None \<Rightarrow> Throws TargetBranchNotFound
           | Some branchRow \<Rightarrow>
               if branch_repository_id branchRow \<noteq> commit_repository_id mergeCommitRow
               then Throws BranchAndCommitInDifferentRepositories
               else (case parent_commit_id mergeCommitRow of
                       None \<Rightarrow>
                         if head_commit_id branchRow \<noteq> None
                         then Throws RootCommitNeedsEmptyBranch
                         else Returns (head_commit_id branchRow)
                     | Some p \<Rightarrow>
                         if Some p \<noteq> head_commit_id branchRow
                         then Throws ParentIsNotBranchHead
                         else Returns (head_commit_id branchRow))))"

definition advance_target :: "store \<Rightarrow> branch_id option \<Rightarrow> commit_id \<Rightarrow> unit outcome \<times> store" where
  "advance_target s targetBranchId commitId =
     (case targetBranchId of
        None \<Rightarrow> (Returns (), s)
      | Some t \<Rightarrow> updateBranchHead s t commitId)"

definition commit_paths :: "store \<Rightarrow> commit_id \<Rightarrow> jstring list" where
  "commit_paths s commitId = map path (files_of_commit s commitId)"

definition missing_resolutions :: "store \<Rightarrow> commit_id \<Rightarrow> conflict_entry list \<Rightarrow> conflict_entry list" where
  "missing_resolutions s commitId conflicts =
     filter (\<lambda>c. ce_path c \<notin> set (commit_paths s commitId)) conflicts"

fun apply_merge ::
  "store \<Rightarrow> commit_id \<Rightarrow> jstring list
     \<Rightarrow> (jstring \<Rightarrow> snapshot_entry_with_content option)
     \<Rightarrow> (jstring \<Rightarrow> snapshot_entry_with_content option)
     \<Rightarrow> (jstring \<Rightarrow> snapshot_entry_with_content option)
     \<Rightarrow> jstring list \<Rightarrow> nat \<Rightarrow> nat outcome \<times> store" where
  "apply_merge s commitId userWritePaths baseMap targetMap sourceMap [] appliedFileCount =
     (Returns appliedFileCount, s)"
| "apply_merge s commitId userWritePaths baseMap targetMap sourceMap (p # ps) appliedFileCount =
     (if p \<in> set userWritePaths
      then apply_merge s commitId userWritePaths baseMap targetMap sourceMap ps appliedFileCount
      else (case patch_entry baseMap targetMap sourceMap p of
              None \<Rightarrow>
                apply_merge s commitId userWritePaths baseMap targetMap sourceMap ps appliedFileCount
            | Some w \<Rightarrow>
                (case writeFile s commitId (in_path w) (in_content w)
                        (if in_isDeleted w = Some True
                         then \<lparr>opt_isSymlink = None, opt_isDeleted = Some True,
                               opt_previousPath = None\<rparr>
                         else \<lparr>opt_isSymlink = in_isSymlink w, opt_isDeleted = None,
                               opt_previousPath = None\<rparr>) of
                   (Returns _, s') \<Rightarrow>
                     apply_merge s' commitId userWritePaths baseMap targetMap sourceMap ps
                       (appliedFileCount + 1)
                 | (Throws e, s') \<Rightarrow> (Throws e, s')
                 | (Diverges, s') \<Rightarrow> (Diverges, s'))))"

definition merge_snapshots ::
  "environment \<Rightarrow> store \<Rightarrow> commit_id \<Rightarrow> commit_id \<Rightarrow> commit_id
     \<Rightarrow> (snapshot_entry_with_content list \<times> snapshot_entry_with_content list
          \<times> snapshot_entry_with_content list) outcome" where
  "merge_snapshots env s mergeBaseCommitId branchHeadCommitId mergedFromCommitId =
     and_then (getCommitSnapshotWithContent env s mergeBaseCommitId) (\<lambda>baseSnapshot.
     and_then (getCommitSnapshotWithContent env s branchHeadCommitId) (\<lambda>targetSnapshot.
     and_then (getCommitSnapshotWithContent env s mergedFromCommitId) (\<lambda>sourceSnapshot.
       Returns (baseSnapshot, targetSnapshot, sourceSnapshot))))"

definition finalize_merge ::
  "environment \<Rightarrow> store \<Rightarrow> commit_id \<Rightarrow> branch_id option \<Rightarrow> finalize_result
     \<Rightarrow> commit_id \<Rightarrow> commit_id \<Rightarrow> finalize_result outcome \<times> store" where
  "finalize_merge env s commitId targetBranchId result branchHeadCommitId mergedFromCommitId =
     (case getMergeBase env s branchHeadCommitId mergedFromCommitId of
        Diverges \<Rightarrow> (Diverges, s)
      | Throws e \<Rightarrow> (Throws e, s)
      | Returns mergeBaseCommitId \<Rightarrow>
          (case getConflicts env s branchHeadCommitId mergedFromCommitId of
             Diverges \<Rightarrow> (Diverges, s)
           | Throws e \<Rightarrow> (Throws e, s)
           | Returns conflicts \<Rightarrow>
               if length conflicts > 0
                  \<and> length (missing_resolutions s commitId conflicts) > 0
               then (Throws (MergeNeedsResolutions
                               (length (missing_resolutions s commitId conflicts)) commitId), s)
               else (case merge_snapshots env s mergeBaseCommitId branchHeadCommitId
                            mergedFromCommitId of
                       Diverges \<Rightarrow> (Diverges, s)
                     | Throws e \<Rightarrow> (Throws e, s)
                     | Returns (baseSnapshot, targetSnapshot, sourceSnapshot) \<Rightarrow>
                         let userWritePaths = new_Set (commit_paths s commitId);
                             allPaths =
                               new_Set (map se_path baseSnapshot @ map se_path targetSnapshot
                                        @ map se_path sourceSnapshot @ userWritePaths)
                         in (case apply_merge s commitId userWritePaths
                                    (snapshot_map baseSnapshot) (snapshot_map targetSnapshot)
                                    (snapshot_map sourceSnapshot) allPaths 0 of
                               (Diverges, s1) \<Rightarrow> (Diverges, s1)
                             | (Throws e, s1) \<Rightarrow> (Throws e, s1)
                             | (Returns appliedFileCount, s1) \<Rightarrow>
                                 (case advance_target s1 targetBranchId commitId of
                                    (Diverges, s2) \<Rightarrow> (Diverges, s2)
                                  | (Throws e, s2) \<Rightarrow> (Throws e, s2)
                                  | (Returns _, s2) \<Rightarrow>
                                      (Returns
                                         (result\<lparr>fr_operation :=
                                                    (if mergeBaseCommitId = mergedFromCommitId
                                                     then already_up_to_date
                                                     else if length conflicts > 0
                                                     then merged_with_conflicts_resolved
                                                     else merged),
                                                  fr_mergeBaseCommitId := Some mergeBaseCommitId,
                                                  fr_sourceCommitId := Some mergedFromCommitId,
                                                  fr_appliedFileCount := appliedFileCount\<rparr>),
                                       s2))))))"

definition finalizeCommit ::
  "environment \<Rightarrow> store \<Rightarrow> commit_id \<Rightarrow> branch_id option \<Rightarrow> finalize_result outcome \<times> store" where
  "finalizeCommit env s commitId targetBranchId =
     (case row (commits s) commitId of
        None \<Rightarrow> (Throws MergeCommitNotFound, s)
      | Some mergeCommitRow \<Rightarrow>
          (case target_head s mergeCommitRow targetBranchId of
             Diverges \<Rightarrow> (Diverges, s)
           | Throws e \<Rightarrow> (Throws e, s)
           | Returns branchHeadCommitId \<Rightarrow>
               let result =
                     \<lparr>fr_operation = fast_forward,
                      fr_repositoryId = commit_repository_id mergeCommitRow,
                      fr_targetBranchId = targetBranchId,
                      fr_mergeBaseCommitId = parent_commit_id mergeCommitRow,
                      fr_previousTargetHeadCommitId = branchHeadCommitId,
                      fr_sourceCommitId = None, fr_mergeCommitId = commitId,
                      fr_newTargetHeadCommitId =
                        (case targetBranchId of None \<Rightarrow> None | Some _ \<Rightarrow> Some commitId),
                      fr_appliedFileCount = 0\<rparr>
               in (case merged_from_commit_id mergeCommitRow of
                     None \<Rightarrow>
                       (case advance_target s targetBranchId commitId of
                          (Diverges, s') \<Rightarrow> (Diverges, s')
                        | (Throws e, s') \<Rightarrow> (Throws e, s')
                        | (Returns _, s') \<Rightarrow> (Returns result, s'))
                   | Some mergedFromCommitId \<Rightarrow>
                       (case branchHeadCommitId of
                          None \<Rightarrow> (Throws CommitIdUnspecified, s)
                        | Some h \<Rightarrow>
                            finalize_merge env s commitId targetBranchId result h
                              mergedFromCommitId))))"

section \<open>Example stores\<close>

text \<open>
  Stores for the concrete checks: one repository \<open>R\<close>, compared by code units. The
  environment \<open>code_unit_env\<close> returns the first of several tied rows in the order of the
  join, \<open>last_row_env\<close> the last.
\<close>

definition code_unit_env :: environment where
  "code_unit_env =
     \<lparr>db_path_le = (\<lambda>a b. a \<le> b),
      localeCompare = (\<lambda>a b. if a < b then - 1 else if a = b then 0 else 1),
      first_file_entry = (\<lambda>tied. 0),
      first_operation = (\<lambda>tied. 0),
      first_common = (\<lambda>tied. 0)\<rparr>"

definition last_row_env :: environment where
  "last_row_env =
     code_unit_env
       \<lparr>first_file_entry := (\<lambda>tied. length tied - 1),
        first_operation := (\<lambda>tied. length tied - 1),
        first_common := (\<lambda>tied. length tied - 1)\<rparr>"

definition commit_in_R :: "commit_id option \<Rightarrow> commit_id option \<Rightarrow> commit" where
  "commit_in_R parent mergedFrom =
     \<lparr>commit_repository_id = 0, parent_commit_id = parent, merged_from_commit_id = mergedFrom,
      message = str ''m''\<rparr>"

definition branch_in_R :: "string \<Rightarrow> commit_id option \<Rightarrow> branch" where
  "branch_in_R name h = \<lparr>branch_repository_id = 0, branch_name = str name, head_commit_id = h\<rparr>"

definition plain_file :: "commit_id \<Rightarrow> string \<Rightarrow> string \<Rightarrow> file_entry" where
  "plain_file c p t =
     \<lparr>file_commit_id = c, path = str p, previous_path = None, content = str t,
      is_deleted = False, is_symlink = False\<rparr>"

definition store_R :: "commit list \<Rightarrow> branch list \<Rightarrow> file_entry list \<Rightarrow> store" where
  "store_R cs bs fs =
     \<lparr>repositories = [\<lparr>repository_name = str ''R'', default_branch_id = Some 0\<rparr>],
      commits = cs, branches = bs, files = fs\<rparr>"

definition forked_commits :: "commit list" where
  "forked_commits = [commit_in_R None None, commit_in_R (Some 0) None, commit_in_R (Some 0) None]"

definition forked_branches :: "branch list" where
  "forked_branches = [branch_in_R ''main'' (Some 2), branch_in_R ''feature'' (Some 1)]"


definition conflict_store :: "string \<Rightarrow> store" where
  "conflict_store p =
     store_R forked_commits forked_branches
       [plain_file 0 p ''hello'', plain_file 1 p ''world'', plain_file 2 p ''there'']"

definition single_commit_store :: "file_entry list \<Rightarrow> store" where
  "single_commit_store fs = store_R [commit_in_R None None] [branch_in_R ''main'' (Some 0)] fs"

definition renamed_and_rewritten :: store where
  "renamed_and_rewritten =
     snd (writeFile
            (snd (moveFile (single_commit_store []) 0 (str ''/a'') (str ''/b'') (str ''x'') None))
            0 (str ''/a'') (str ''new'') no_options)"

definition tombstone_chain :: store where
  "tombstone_chain =
     store_R [commit_in_R None None, commit_in_R (Some 0) None, commit_in_R (Some 1) None]
       [branch_in_R ''main'' (Some 2)]
       [plain_file 0 ''/a'' ''hello'',
        (plain_file 1 ''/a'' [])\<lparr>is_deleted := True\<rparr>,
        plain_file 2 ''/b'' ''other'']"

definition moved_file :: "commit_id \<Rightarrow> string \<Rightarrow> string \<Rightarrow> string \<Rightarrow> file_entry" where
  "moved_file c from to t = (plain_file c to t)\<lparr>previous_path := Some (str from)\<rparr>"

definition moved_tombstone :: store where
  "moved_tombstone =
     snd (writeFile (single_commit_store []) 0 (str ''/b'') (str ''x'')
            \<lparr>opt_isSymlink = None, opt_isDeleted = Some True, opt_previousPath = Some (str ''/a'')\<rparr>)"

definition deleted_and_moved :: store where
  "deleted_and_moved =
     snd (moveFile
            (snd (deleteFile
                    (store_R [commit_in_R None None, commit_in_R (Some 0) None]
                       [branch_in_R ''main'' (Some 1)] [plain_file 0 ''/a'' ''hello''])
                    1 (str ''/a'')))
            1 (str ''/a'') (str ''/b'') (str ''x'') None)"

definition moved_on :: store where
  "moved_on =
     snd (moveFile
            (snd (moveFile (single_commit_store []) 0 (str ''/a'') (str ''/b'') (str ''x'') None))
            0 (str ''/b'') (str ''/d'') (str ''y'') None)"

definition moved_away_twice :: store where
  "moved_away_twice =
     snd (moveFile
            (snd (moveFile (single_commit_store []) 0 (str ''/a'') (str ''/b'') (str ''x'') None))
            0 (str ''/a'') (str ''/c'') (str ''y'') None)"

definition renamed_once :: store where
  "renamed_once =
     snd (moveFile (single_commit_store [plain_file 0 ''/c'' ''z'']) 0 (str ''/a'') (str ''/b'')
            (str ''x'') None)"


definition entry :: "string \<Rightarrow> string \<Rightarrow> snapshot_entry_with_content" where
  "entry p t = \<lparr>se_path = str p, se_isSymlink = False, se_content = str t\<rparr>"

definition three_conflicts :: store where
  "three_conflicts =
     store_R forked_commits forked_branches
       [plain_file 0 ''/a'' ''base'', plain_file 0 ''/d'' ''base'',
        plain_file 1 ''/n'' ''left'', plain_file 1 ''/a'' ''left'',
        (plain_file 1 ''/d'' [])\<lparr>is_deleted := True\<rparr>,
        plain_file 2 ''/n'' ''right'', plain_file 2 ''/d'' ''right'', plain_file 2 ''/a'' ''right'']"

definition same_change_store :: store where
  "same_change_store =
     store_R forked_commits forked_branches
       [plain_file 0 ''/a.txt'' ''hello'', plain_file 1 ''/a.txt'' ''world'',
        plain_file 2 ''/a.txt'' ''world'']"

definition behind_store :: store where
  "behind_store =
     store_R [commit_in_R None None, commit_in_R (Some 0) None]
       [branch_in_R ''main'' (Some 1), branch_in_R ''feature'' (Some 0)]
       [plain_file 0 ''/a.txt'' ''hello'', plain_file 1 ''/a.txt'' ''world'']"

definition fast_forward_result :: "commit_id \<Rightarrow> commit_id \<Rightarrow> rebase_result" where
  "fast_forward_result branchHead ontoHead =
     \<lparr>rr_operation = fast_forward, rr_repositoryId = 0, rr_branchId = 1, rr_ontoBranchId = 0,
      rr_mergeBaseCommitId = Some 0, rr_previousBranchHeadCommitId = Some branchHead,
      rr_ontoHeadCommitId = Some ontoHead, rr_rebasedCommitId = None,
      rr_newBranchHeadCommitId = Some ontoHead, rr_appliedFileCount = 0\<rparr>"

definition modify_conflict :: "string \<Rightarrow> string \<Rightarrow> string \<Rightarrow> conflict_entry" where
  "modify_conflict p l r =
     \<lparr>ce_mergeBaseCommitId = 0, ce_path = str p, baseExists = True, baseIsSymlink = False,
      baseContent = Some (str ''hello''), leftExists = True, leftIsSymlink = False,
      leftContent = Some (str l), rightExists = True, rightIsSymlink = False,
      rightContent = Some (str r), conflictKind = modify_modify\<rparr>"

definition merge_store :: "string \<Rightarrow> file_entry list \<Rightarrow> store" where
  "merge_store p resolutions =
     store_R (forked_commits @ [commit_in_R (Some 2) (Some 1)]) forked_branches
       ([plain_file 0 p ''hello'', plain_file 1 p ''world'', plain_file 2 p ''there'']
        @ resolutions)"

definition merged_result :: finalize_result where
  "merged_result =
     \<lparr>fr_operation = merged_with_conflicts_resolved, fr_repositoryId = 0,
      fr_targetBranchId = Some 0, fr_mergeBaseCommitId = Some 0,
      fr_previousTargetHeadCommitId = Some 2, fr_sourceCommitId = Some 1,
      fr_mergeCommitId = 3, fr_newTargetHeadCommitId = Some 3, fr_appliedFileCount = 0\<rparr>"

section \<open>Store invariants kept by the schema\<close>

text \<open>
  Every foreign key to \<open>fs.commits\<close> is checked when the referring row is inserted, and
  commits are never updated, so a parent and a merged-from commit are older rows than the
  commit that names them. \<open>unique (commit_id, path)\<close> is the constraint on \<open>fs.files\<close>.
\<close>

definition older_links :: "commit list \<Rightarrow> bool" where
  "older_links cs =
     list_all (\<lambda>(i, k). list_all (\<lambda>p. p < i) (links k)) (enumerate 0 cs)"

definition unique_commit_path :: "store \<Rightarrow> bool" where
  "unique_commit_path s = distinct (map (\<lambda>f. (file_commit_id f, path f)) (files s))"

text \<open>
  The rows of one depth: the commits of the chain, the operations of the snapshot query and
  the rows of the read query; and among them the operations that are no move away and the
  rows whose own path is the queried one.
\<close>

definition operations_at_depth :: "nat \<Rightarrow> operation list \<Rightarrow> operation list" where
  "operations_at_depth d ops = filter (\<lambda>op. op_depth op = d) ops"

definition entries_at_depth :: "nat \<Rightarrow> (nat \<times> file_entry) list \<Rightarrow> (nat \<times> file_entry) list" where
  "entries_at_depth d rows = filter (\<lambda>x. fst x = d) rows"

definition commits_at_depth :: "nat \<Rightarrow> (commit_id \<times> nat) list \<Rightarrow> (commit_id \<times> nat) list" where
  "commits_at_depth d ct = filter (\<lambda>x. snd x = d) ct"

definition own_writes :: "operation list \<Rightarrow> operation list" where
  "own_writes ops = filter (\<lambda>op. \<not> is_move_away op) ops"

definition own_entries :: "jstring \<Rightarrow> (nat \<times> file_entry) list \<Rightarrow> (nat \<times> file_entry) list" where
  "own_entries p rows = filter (\<lambda>x. path (snd x) = p) rows"

section \<open>Path normalizer: shape of the canonical form\<close>

lemma singleton_not_two: "[v] \<noteq> a @ x # y # b"
proof
  assume "[v] = a @ x # y # b"
  then have "length [v] = length (a @ x # y # b)" by (rule arg_cong)
  then show False by simp
qed

lemma has_dslash_iff: "has_dslash s \<longleftrightarrow> (\<exists>a b. s = a @ SLASH # SLASH # b)"
proof (induction s rule: has_dslash.induct)
  case (1 a b xs)
  show ?case
  proof
    assume "has_dslash (a # b # xs)"
    then consider "a = SLASH \<and> b = SLASH" | "has_dslash (b # xs)" by auto
    then show "\<exists>u v. a # b # xs = u @ SLASH # SLASH # v"
    proof cases
      case 1
      then have "a # b # xs = [] @ SLASH # SLASH # xs" by simp
      then show ?thesis by blast
    next
      case 2
      with "1.IH" obtain u v where "b # xs = u @ SLASH # SLASH # v" by blast
      then have "a # b # xs = (a # u) @ SLASH # SLASH # v" by simp
      then show ?thesis by blast
    qed
  next
    assume "\<exists>u v. a # b # xs = u @ SLASH # SLASH # v"
    then obtain u v where uv: "a # b # xs = u @ SLASH # SLASH # v" by blast
    show "has_dslash (a # b # xs)"
    proof (cases u)
      case Nil
      with uv show ?thesis by simp
    next
      case (Cons c u')
      with uv have "b # xs = u' @ SLASH # SLASH # v" by simp
      with "1.IH" have "has_dslash (b # xs)" by blast
      then show ?thesis by simp
    qed
  qed
qed (simp_all add: singleton_not_two)

lemma no_dslash_collapse: "\<not> has_dslash (collapse_slashes s)"
  by (induction s rule: collapse_slashes.induct) (simp add: collapse_slashes.simps)

lemma collapse_slashes_id: "\<not> has_dslash s \<Longrightarrow> collapse_slashes s = s"
  by (simp add: collapse_slashes.simps)

lemma set_replace_dslash: "set (replace_dslash s) \<subseteq> set s"
  by (induction s rule: replace_dslash.induct) auto

lemma set_collapse_slashes: "set (collapse_slashes s) \<subseteq> set s"
proof (induction s rule: collapse_slashes.induct)
  case (1 s)
  show ?case
  proof (cases "has_dslash s")
    case True
    with 1 set_replace_dslash [of s] show ?thesis
      by (subst collapse_slashes.simps) auto
  next
    case False
    then show ?thesis by (simp add: collapse_slashes.simps)
  qed
qed

lemma length_collapse_slashes: "length (collapse_slashes s) \<le> length s"
proof (induction s rule: collapse_slashes.induct)
  case (1 s)
  show ?case
  proof (cases "has_dslash s")
    case True
    with 1 length_replace_dslash_le [of s] show ?thesis
      by (subst collapse_slashes.simps) auto
  next
    case False
    then show ?thesis by (simp add: collapse_slashes.simps)
  qed
qed

lemma starts_replace_dslash:
  "starts_with_slash s \<Longrightarrow> starts_with_slash (replace_dslash s)"
  by (induction s rule: replace_dslash.induct) (auto simp: starts_with_slash_def)

lemma starts_collapse_slashes:
  "starts_with_slash s \<Longrightarrow> starts_with_slash (collapse_slashes s)"
proof (induction s rule: collapse_slashes.induct)
  case (1 s)
  show ?case
  proof (cases "has_dslash s")
    case True
    with 1 starts_replace_dslash [of s] show ?thesis
      by (subst collapse_slashes.simps) auto
  next
    case False
    with 1 show ?thesis by (simp add: collapse_slashes.simps)
  qed
qed

lemma has_dslash_butlast: "has_dslash (butlast s) \<Longrightarrow> has_dslash s"
proof -
  assume "has_dslash (butlast s)"
  then obtain a b where ab: "butlast s = a @ SLASH # SLASH # b"
    by (auto simp: has_dslash_iff)
  then have "s \<noteq> []" by auto
  then have "s = butlast s @ [last s]" by simp
  with ab have "s = a @ SLASH # SLASH # (b @ [last s])" by simp
  then show ?thesis unfolding has_dslash_iff by blast
qed

lemma has_dslash_snoc:
  "xs \<noteq> [] \<Longrightarrow> last xs = SLASH \<Longrightarrow> has_dslash (xs @ [SLASH])"
proof -
  assume "xs \<noteq> []" and "last xs = SLASH"
  then have "xs @ [SLASH] = butlast xs @ SLASH # SLASH # []"
    by (metis append_butlast_last_id append.assoc append_Cons append_Nil)
  then show ?thesis unfolding has_dslash_iff by blast
qed

text \<open>Shape of the canonical form.\<close>

lemma starts_ensure_leading_slash: "starts_with_slash (ensure_leading_slash s)"
  by (simp add: ensure_leading_slash_def starts_with_slash_def)

lemma starts_strip_trailing_slash:
  assumes "starts_with_slash s"
  shows "starts_with_slash (strip_trailing_slash s)"
proof (cases "length s > 1 \<and> ends_with_slash s")
  case True
  then obtain a b r where s: "s = a # b # r"
    by (cases s; cases "tl s") auto
  with assms have "a = SLASH" by (simp add: starts_with_slash_def)
  moreover from s True have "strip_trailing_slash s = a # butlast (b # r)"
    by (simp add: strip_trailing_slash_def)
  ultimately show ?thesis by (simp add: starts_with_slash_def)
next
  case False
  then have "strip_trailing_slash s = s" unfolding strip_trailing_slash_def by (rule if_not_P)
  with assms show ?thesis by simp
qed

lemma no_dslash_strip_trailing_slash:
  "\<not> has_dslash s \<Longrightarrow> \<not> has_dslash (strip_trailing_slash s)"
proof -
  assume "\<not> has_dslash s"
  moreover from this have "\<not> has_dslash (butlast s)" using has_dslash_butlast by blast
  ultimately show ?thesis unfolding strip_trailing_slash_def by simp
qed

lemma no_trailing_strip_trailing_slash:
  assumes "\<not> has_dslash s" and "length (strip_trailing_slash s) > 1"
  shows "\<not> ends_with_slash (strip_trailing_slash s)"
proof (cases "length s > 1 \<and> ends_with_slash s")
  case True
  then have c: "strip_trailing_slash s = butlast s"
    by (simp add: strip_trailing_slash_def)
  from True have "s \<noteq> []" and "last s = SLASH" by (auto simp: ends_with_slash_def)
  then have n3: "butlast s @ [SLASH] = s" using append_butlast_last_id [of s] by simp
  show ?thesis
  proof
    assume "ends_with_slash (strip_trailing_slash s)"
    with c have "butlast s \<noteq> []" and "last (butlast s) = SLASH"
      by (simp_all add: ends_with_slash_def)
    then have "has_dslash (butlast s @ [SLASH])" by (rule has_dslash_snoc)
    with n3 assms(1) show False by simp
  qed
next
  case False
  then have "strip_trailing_slash s = s" unfolding strip_trailing_slash_def by (rule if_not_P)
  with False assms(2) show ?thesis by simp
qed

lemma set_strip_trailing_slash: "set (strip_trailing_slash s) \<subseteq> set s"
  by (auto simp: strip_trailing_slash_def dest: in_set_butlastD)

lemma set_to_forward_slashes:
  "set (to_forward_slashes p) \<subseteq> insert SLASH (set p - {BACKSLASH})"
  by (auto simp: to_forward_slashes_def)

lemma set_ensure_leading_slash: "set (ensure_leading_slash s) \<subseteq> insert SLASH (set s)"
  by (auto simp: ensure_leading_slash_def)

lemma canonical_starts: "starts_with_slash (canonical p)"
  unfolding canonical_def
  by (intro starts_strip_trailing_slash starts_collapse_slashes starts_ensure_leading_slash)

lemma canonical_no_dslash: "\<not> has_dslash (canonical p)"
  unfolding canonical_def
  by (intro no_dslash_strip_trailing_slash no_dslash_collapse)

lemma canonical_no_trailing:
  "length (canonical p) > 1 \<Longrightarrow> \<not> ends_with_slash (canonical p)"
  unfolding canonical_def
  by (intro no_trailing_strip_trailing_slash no_dslash_collapse)

lemma canonical_set:
  "set (canonical p) \<subseteq> insert SLASH (set p - {BACKSLASH})"
proof -
  have "set (canonical p) \<subseteq> set (ensure_leading_slash (to_forward_slashes p))"
    unfolding canonical_def
    using set_strip_trailing_slash set_collapse_slashes by (rule subset_trans)
  also have "\<dots> \<subseteq> insert SLASH (set (to_forward_slashes p))"
    by (rule set_ensure_leading_slash)
  also have "\<dots> \<subseteq> insert SLASH (set p - {BACKSLASH})"
    using set_to_forward_slashes [of p] by blast
  finally show ?thesis .
qed

lemma to_forward_slashes_id: "BACKSLASH \<notin> set q \<Longrightarrow> to_forward_slashes q = q"
  by (induction q) (auto simp: to_forward_slashes_def)

lemma canonical_fixed:
  assumes "starts_with_slash q" and "\<not> has_dslash q" and "BACKSLASH \<notin> set q"
    and "length q > 1 \<Longrightarrow> \<not> ends_with_slash q"
  shows "canonical q = q"
proof -
  have 1: "to_forward_slashes q = q" using assms(3) by (rule to_forward_slashes_id)
  have 2: "ensure_leading_slash q = q" using assms(1) by (simp add: ensure_leading_slash_def)
  have 3: "collapse_slashes q = q" using assms(2) by (rule collapse_slashes_id)
  have 4: "strip_trailing_slash q = q"
    using assms(4) unfolding strip_trailing_slash_def by (cases "length q > 1") simp_all
  show ?thesis by (simp add: canonical_def 1 2 3 4)
qed

lemma SLASH_facts:
  "\<not> is_white_space SLASH" "\<not> is_control SLASH" "\<not> is_windows_invalid SLASH" "SLASH \<noteq> BACKSLASH"
  by (simp_all add: is_white_space_def is_control_def is_windows_invalid_def SLASH_def BACKSLASH_def)

lemma trim_nonempty:
  assumes "starts_with_slash q"
  shows "trim q \<noteq> []"
proof -
  from assms obtain r where q: "q = SLASH # r"
    by (cases q) (auto simp: starts_with_slash_def)
  then have "dropWhile is_white_space q = q" by (simp add: SLASH_facts)
  moreover have "dropWhile is_white_space (rev q) \<noteq> []"
    using q SLASH_facts(1) by (auto simp: dropWhile_eq_Nil_conv)
  ultimately show ?thesis by (simp add: trim_def)
qed

lemma find_SomeD: "find P xs = Some x \<Longrightarrow> x \<in> set xs \<and> P x"
  by (induction xs) (auto split: if_splits)

lemma validatePath_iff:
  "validatePath p = Inr () \<longleftrightarrow>
     trim p \<noteq> [] \<and> length p \<le> 4096 \<and> (\<forall>c \<in> set p. \<not> is_control c \<and> \<not> is_windows_invalid c)"
  by (auto simp: validatePath_def list_ex_iff find_None_iff split: option.splits dest: find_SomeD)

lemma normalizePath_fixed_point: "normalizePath p = Inr q \<Longrightarrow> normalizePath q = Inr q"
proof -
  assume a: "normalizePath p = Inr q"
  then have vp: "validatePath p = Inr ()" and q: "q = canonical p" and len: "length q \<le> 4096"
    by (auto simp: normalizePath_def Let_def split: sum.splits if_splits)
  have st: "starts_with_slash q" using q canonical_starts by simp
  have set: "set q \<subseteq> insert SLASH (set p - {BACKSLASH})" using q canonical_set by simp
  from vp have "\<forall>c \<in> set p. \<not> is_control c \<and> \<not> is_windows_invalid c"
    by (simp add: validatePath_iff)
  with set have ok: "\<forall>c \<in> set q. \<not> is_control c \<and> \<not> is_windows_invalid c"
    using SLASH_facts by blast
  have vq: "validatePath q = Inr ()"
    using trim_nonempty [OF st] len ok by (simp add: validatePath_iff)
  have "BACKSLASH \<notin> set q" using set SLASH_facts(4) by auto
  then have "canonical q = q"
    using st q canonical_no_dslash canonical_no_trailing by (intro canonical_fixed) simp_all
  with vq len show ?thesis by (simp add: normalizePath_def Let_def)
qed

lemma length_canonical_le: "length (canonical p) \<le> Suc (length p)"
proof -
  have "length (canonical p) \<le> length (collapse_slashes (ensure_leading_slash (to_forward_slashes p)))"
    by (simp add: canonical_def strip_trailing_slash_def)
  also have "\<dots> \<le> length (ensure_leading_slash (to_forward_slashes p))"
    by (rule length_collapse_slashes)
  also have "\<dots> \<le> Suc (length p)"
    by (simp add: ensure_leading_slash_def to_forward_slashes_def)
  finally show ?thesis .
qed

lemma canonical_forced_slash:
  assumes "\<not> starts_with_slash (to_forward_slashes p)"
    and "\<not> has_dslash (to_forward_slashes p)"
    and "\<not> ends_with_slash (to_forward_slashes p)"
    and "p \<noteq> []"
  shows "canonical p = SLASH # to_forward_slashes p"
proof -
  let ?n1 = "to_forward_slashes p"
  from assms(4) obtain a r where n1: "?n1 = a # r"
    by (cases p) (auto simp: to_forward_slashes_def)
  with assms(1) have a: "a \<noteq> SLASH" by (simp add: starts_with_slash_def)
  have 2: "ensure_leading_slash ?n1 = SLASH # ?n1"
    using assms(1) by (simp add: ensure_leading_slash_def)
  have "\<not> has_dslash (SLASH # ?n1)" using n1 a assms(2) by simp
  then have 3: "collapse_slashes (SLASH # ?n1) = SLASH # ?n1" by (rule collapse_slashes_id)
  have "\<not> ends_with_slash (SLASH # ?n1)"
    using assms(3) n1 by (simp add: ends_with_slash_def)
  then have 4: "strip_trailing_slash (SLASH # ?n1) = SLASH # ?n1"
    by (simp add: strip_trailing_slash_def)
  show ?thesis by (simp add: canonical_def 2 3 4)
qed

lemma trim_nonempty_iff: "trim p \<noteq> [] \<longleftrightarrow> (\<exists>c \<in> set p. \<not> is_white_space c)"
proof
  assume "trim p \<noteq> []"
  then have "dropWhile is_white_space p \<noteq> []" by (auto simp: trim_def dest: set_dropWhileD)
  then show "\<exists>c \<in> set p. \<not> is_white_space c"
    by (auto simp: dropWhile_eq_Nil_conv dest: set_dropWhileD)
next
  assume "\<exists>c \<in> set p. \<not> is_white_space c"
  then obtain c where c: "c \<in> set p" "\<not> is_white_space c" by blast
  then have "dropWhile is_white_space p \<noteq> []" by (auto simp: dropWhile_eq_Nil_conv)
  then have "hd (dropWhile is_white_space p) \<in> set (dropWhile is_white_space p)"
    and "\<not> is_white_space (hd (dropWhile is_white_space p))"
    by (simp_all add: hd_dropWhile)
  then have "\<exists>c \<in> set (rev (dropWhile is_white_space p)). \<not> is_white_space c"
    by auto
  then have "dropWhile is_white_space (rev (dropWhile is_white_space p)) \<noteq> []"
    by (simp only: dropWhile_eq_Nil_conv) blast
  then show "trim p \<noteq> []" by (simp add: trim_def)
qed

lemma has_dslash_mem: "has_dslash s \<Longrightarrow> SLASH \<in> set s"
  by (auto simp: has_dslash_iff)

lemma length_collapse_slashes_less:
  assumes "has_dslash s"
  shows "length (collapse_slashes s) < length s"
proof -
  from assms have "collapse_slashes s = collapse_slashes (replace_dslash s)"
    by (subst collapse_slashes.simps) simp
  then have "length (collapse_slashes s) \<le> length (replace_dslash s)"
    by (simp add: length_collapse_slashes)
  also have "\<dots> < length s" using assms by (rule length_replace_dslash_less)
  finally show ?thesis .
qed

lemma length_strip_trailing_slash_le: "length (strip_trailing_slash s) \<le> length s"
  by (simp add: strip_trailing_slash_def)

lemma canonical_shortened:
  assumes "\<not> starts_with_slash (to_forward_slashes p)"
    and "has_dslash (to_forward_slashes p) \<or> ends_with_slash (to_forward_slashes p)"
  shows "length (canonical p) \<le> length p"
proof -
  let ?n1 = "to_forward_slashes p"
  have len: "length ?n1 = length p" by (simp add: to_forward_slashes_def)
  have 2: "ensure_leading_slash ?n1 = SLASH # ?n1"
    using assms(1) by (simp add: ensure_leading_slash_def)
  show ?thesis
  proof (cases "has_dslash ?n1")
    case True
    then obtain a b r where n1: "?n1 = a # b # r" by (cases ?n1 rule: has_dslash.cases) auto
    with True have "has_dslash (SLASH # ?n1)" by simp
    then have "length (collapse_slashes (SLASH # ?n1)) < length (SLASH # ?n1)"
      by (rule length_collapse_slashes_less)
    then have "length (collapse_slashes (SLASH # ?n1)) \<le> length p" using len by simp
    with length_strip_trailing_slash_le [of "collapse_slashes (SLASH # ?n1)"]
    show ?thesis by (simp add: canonical_def 2)
  next
    case False
    with assms(2) have e: "ends_with_slash ?n1" by simp
    then obtain a r where n1: "?n1 = a # r" by (cases ?n1) (auto simp: ends_with_slash_def)
    with assms(1) have a: "a \<noteq> SLASH" by (simp add: starts_with_slash_def)
    have "\<not> has_dslash (SLASH # ?n1)" using n1 a False by simp
    then have 3: "collapse_slashes (SLASH # ?n1) = SLASH # ?n1" by (rule collapse_slashes_id)
    have "ends_with_slash (SLASH # ?n1)" using e n1 by (simp add: ends_with_slash_def)
    then have "strip_trailing_slash (SLASH # ?n1) = butlast (SLASH # ?n1)"
      using n1 by (simp add: strip_trailing_slash_def)
    then have "length (strip_trailing_slash (SLASH # ?n1)) = length (SLASH # ?n1) - 1"
      by (simp only: length_butlast)
    then have "length (strip_trailing_slash (SLASH # ?n1)) = length p" using len by simp
    then show ?thesis by (simp add: canonical_def 2 3)
  qed
qed

text \<open>
  C9. Path normalization is idempotent: for every path accepted by \<open>validatePath\<close>,
  normalizing the result of \<open>normalizePath\<close> again gives the same outcome as normalizing
  once. When the first normalization throws (a valid path of 4096 code units that grows
  beyond the limit), the composition throws the same error.
\<close>

theorem normalizePath_idempotent:
  "validatePath p = Inr () \<Longrightarrow>
     (case normalizePath p of Inl e \<Rightarrow> Inl e | Inr q \<Rightarrow> normalizePath q) = normalizePath p"
  using normalizePath_fixed_point [of p] by (cases "normalizePath p") simp_all

theorem normalizePath_idempotent_witness:
  "validatePath ([92, 92] @ str ''a//b '' @ [92, 47]) = Inr () \<and>
   normalizePath ([92, 92] @ str ''a//b '' @ [92, 47]) = Inr (str ''/a/b '') \<and>
   normalizePath (str ''/a/b '') = Inr (str ''/a/b '')"
proof -
  let ?p = "[92, 92] @ str ''a//b '' @ [92, 47]"
  have v: "validatePath ?p = Inr ()" by code_simp
  have n: "normalizePath ?p = Inr (str ''/a/b '')" by code_simp
  from normalizePath_idempotent [OF v] n have "normalizePath (str ''/a/b '') = Inr (str ''/a/b '')"
    by simp
  with v n show ?thesis by simp
qed

text \<open>
  C10 (amended). \<open>normalizePath\<close> checks the 4096 limit again on its output: every string
  it returns has at most 4096 code units. A path that passes \<open>validatePath\<close> with exactly
  4096 code units and gains the forced leading slash (it does not start with a separator) is
  rejected with the path-too-long error exactly when no later step takes a code unit away
  again, that is, when it has no doubled separator and no trailing separator; otherwise it
  is normalized.
\<close>

theorem normalizePath_output_bounded:
  "(normalizePath p = Inr q \<longrightarrow> length q \<le> 4096) \<and>
   (validatePath p' = Inr () \<and> length p' = 4096
      \<and> \<not> starts_with_slash (to_forward_slashes p')
    \<longrightarrow> (normalizePath p' = Inl PathTooLong
          \<longleftrightarrow> \<not> has_dslash (to_forward_slashes p') \<and> \<not> ends_with_slash (to_forward_slashes p')))"
proof (intro conjI impI)
  assume "normalizePath p = Inr q"
  then show "length q \<le> 4096"
    by (auto simp: normalizePath_def Let_def split: sum.splits if_splits)
next
  assume a: "validatePath p' = Inr () \<and> length p' = 4096
      \<and> \<not> starts_with_slash (to_forward_slashes p')"
  show "normalizePath p' = Inl PathTooLong
          \<longleftrightarrow> \<not> has_dslash (to_forward_slashes p') \<and> \<not> ends_with_slash (to_forward_slashes p')"
  proof (cases "has_dslash (to_forward_slashes p') \<or> ends_with_slash (to_forward_slashes p')")
    case True
    with a have "length (canonical p') \<le> length p'" by (intro canonical_shortened) simp_all
    with a have "normalizePath p' = Inr (canonical p')" by (simp add: normalizePath_def Let_def)
    with True show ?thesis by auto
  next
    case False
    from a have "p' \<noteq> []" by auto
    with a False have "canonical p' = SLASH # to_forward_slashes p'"
      by (intro canonical_forced_slash) simp_all
    then have "length (canonical p') = 4097" using a by (simp add: to_forward_slashes_def)
    with a have "normalizePath p' = Inl PathTooLong" by (simp add: normalizePath_def Let_def)
    with False show ?thesis by simp
  qed
qed

theorem normalizePath_output_bounded_witness:
  "normalizePath (str ''a/b/'') = Inr (str ''/a/b'') \<and> length (str ''/a/b'') \<le> 4096 \<and>
   validatePath (replicate 4096 97) = Inr () \<and> length (replicate 4096 (97 :: code_unit)) = 4096 \<and>
   \<not> starts_with_slash (to_forward_slashes (replicate 4096 97)) \<and>
   \<not> has_dslash (to_forward_slashes (replicate 4096 97)) \<and>
   \<not> ends_with_slash (to_forward_slashes (replicate 4096 97)) \<and>
   normalizePath (replicate 4096 97) = Inl PathTooLong"
proof -
  let ?p = "replicate 4096 (97 :: code_unit)"
  have n: "normalizePath (str ''a/b/'') = Inr (str ''/a/b'')" by code_simp
  have a: "\<not> is_white_space 97" "\<not> is_control 97" "\<not> is_windows_invalid 97" "(97 :: code_unit) \<noteq> SLASH"
    by (simp_all add: is_white_space_def is_control_def is_windows_invalid_def SLASH_def)
  have v: "validatePath ?p = Inr ()"
    unfolding validatePath_iff trim_nonempty_iff using a by simp
  have f: "to_forward_slashes ?p = ?p" by (simp add: to_forward_slashes_def BACKSLASH_def)
  have s: "\<not> starts_with_slash ?p"
  proof -
    have "?p = 97 # replicate 4095 97" by (simp flip: replicate_Suc)
    then show ?thesis using a(4) by (simp add: starts_with_slash_def)
  qed
  have d: "\<not> has_dslash ?p" using has_dslash_mem [of ?p] a(4) by auto
  have e: "\<not> ends_with_slash ?p" using a(4) by (simp add: ends_with_slash_def)
  from normalizePath_output_bounded [of "str ''a/b/''" "str ''/a/b''" ?p] n v f s d e
  show ?thesis by simp
qed

text \<open>
  The claim as stated fails: the length is checked after the trailing slash is removed. The
  path of 4095 letters \<open>a\<close> followed by a slash passes \<open>validatePath\<close> with 4096 code
  units and gains the forced leading slash, loses its trailing slash, and is returned with
  4096 code units.
\<close>

theorem normalizePath_output_bounded_counterexample:
  "validatePath (replicate 4095 97 @ [47]) = Inr ()
   \<and> length (replicate 4095 (97 :: code_unit) @ [47]) = 4096
   \<and> \<not> starts_with_slash (to_forward_slashes (replicate 4095 97 @ [47]))
   \<and> normalizePath (replicate 4095 97 @ [47]) = Inr (47 # replicate 4095 97)
   \<and> length (47 # replicate 4095 (97 :: code_unit)) = 4096"
proof -
  let ?a = "replicate 4095 (97 :: code_unit)"
  let ?p = "?a @ [47]"
  have a: "\<not> is_white_space 97" "\<not> is_control 97" "\<not> is_windows_invalid 97"
    "(97 :: code_unit) \<noteq> SLASH" "(97 :: code_unit) \<noteq> BACKSLASH"
    "\<not> is_control 47" "\<not> is_windows_invalid 47" "(47 :: code_unit) \<noteq> BACKSLASH" "SLASH = (47 :: code_unit)"
    by (simp_all add: is_white_space_def is_control_def is_windows_invalid_def SLASH_def
        BACKSLASH_def)
  have v: "validatePath ?p = Inr ()"
    unfolding validatePath_iff trim_nonempty_iff using a by auto
  have l: "length ?p = 4096" by simp
  have f: "to_forward_slashes ?p = ?p" using a by (simp add: to_forward_slashes_def)
  have hd: "?a = 97 # replicate 4094 97" by (simp flip: replicate_Suc)
  have s: "\<not> starts_with_slash ?p"
    by (subst hd) (simp add: starts_with_slash_def a(4))
  have 2: "ensure_leading_slash ?p = SLASH # ?p" using s by (simp add: ensure_leading_slash_def)
  have "\<not> has_dslash (SLASH # ?p)"
  proof
    assume "has_dslash (SLASH # ?p)"
    then obtain x y where xy: "SLASH # ?p = x @ SLASH # SLASH # y" unfolding has_dslash_iff by blast
    show False
    proof (cases x)
      case Nil
      with xy have "?p = SLASH # y" by simp
      then show False by (subst (asm) hd) (simp add: a(4))
    next
      case (Cons c x')
      with xy have split: "?a @ [47] = x' @ SLASH # SLASH # y" by simp
      have "\<exists>z. ?a = x' @ SLASH # z"
      proof (cases y rule: rev_cases)
        case Nil
        with split have "?a @ [47] = (x' @ [SLASH]) @ [SLASH]" by simp
        then have "?a = x' @ [SLASH]" by (simp only: append1_eq_conv)
        then show ?thesis by blast
      next
        case (snoc y' c')
        with split have "?a @ [47] = (x' @ SLASH # SLASH # y') @ [c']" by simp
        then have "?a = x' @ SLASH # SLASH # y'" by (simp only: append1_eq_conv)
        then show ?thesis by blast
      qed
      then obtain z where "?a = x' @ SLASH # z" by blast
      then have "SLASH \<in> set ?a" by (metis in_set_conv_decomp)
      then show False using a(4) by simp
    qed
  qed
  then have 3: "collapse_slashes (SLASH # ?p) = SLASH # ?p" by (rule collapse_slashes_id)
  have 4: "strip_trailing_slash (SLASH # ?p) = SLASH # ?a"
    by (simp add: strip_trailing_slash_def ends_with_slash_def a(9) butlast_append)
  have c: "canonical ?p = 47 # ?a" unfolding canonical_def f 2 3 4 by (simp add: a(9))
  have n: "normalizePath ?p = Inr (47 # ?a)" by (simp add: normalizePath_def v c)
  from v l s n show ?thesis by (simp add: f)
qed

section \<open>Ancestor chains and the selection of the closest delta\<close>

lemma older_linksD:
  assumes "older_links cs" and "i < length cs"
  shows "\<forall>p \<in> set (links (cs ! i)). p < i"
proof -
  from assms(2) have "(i, cs ! i) \<in> set (enumerate 0 cs)"
    by (simp add: in_set_enumerate_eq)
  with assms(1) show ?thesis
    by (auto simp: older_links_def list_all_iff)
qed

lemma links_parent: "parent_commit_id k = Some p \<Longrightarrow> p \<in> set (links k)"
  by (simp add: links_def List.map_filter_simps)

lemma links_merged_from: "merged_from_commit_id k = Some p \<Longrightarrow> p \<in> set (links k)"
  by (cases "parent_commit_id k") (simp_all add: links_def List.map_filter_simps)

lemma commit_tree_from_terminates:
  "older_links cs \<Longrightarrow> (\<forall>c. co = Some c \<longrightarrow> c < length cs \<longrightarrow> c < n) \<Longrightarrow> commit_tree_from n cs co d \<noteq> None"
proof (induction n cs co d rule: commit_tree_from.induct)
  case (1 fuel cs depth)
  then show ?case by simp
next
  case (2 cs c depth)
  then show ?case by auto
next
  case (3 fuel cs c depth)
  show ?case
  proof (cases "c < length cs")
    case True
    have "\<forall>c'. parent_commit_id (cs ! c) = Some c' \<longrightarrow> c' < length cs \<longrightarrow> c' < fuel"
    proof (intro allI impI)
      fix c' assume "parent_commit_id (cs ! c) = Some c'"
      then have "c' \<in> set (links (cs ! c))" by (rule links_parent)
      with older_linksD [OF "3.prems"(1) True] have "c' < c" by blast
      moreover from "3.prems"(2) True have "c < Suc fuel" by simp
      ultimately show "c' < fuel" by simp
    qed
    with "3.IH" [OF True "3.prems"(1)] True show ?thesis by simp
  next
    case False
    then show ?thesis by simp
  qed
qed

lemma commit_tree_terminates: "older_links (commits s) \<Longrightarrow> commit_tree s c \<noteq> None"
  unfolding commit_tree_def by (rule commit_tree_from_terminates) auto

lemma commit_tree_from_depths:
  "commit_tree_from n cs co d = Some ct \<Longrightarrow> map snd ct = [d..<d + length ct]"
proof (induction n cs co d arbitrary: ct rule: commit_tree_from.induct)
  case (1 fuel cs depth)
  then show ?case by simp
next
  case (2 cs c depth)
  then show ?case by (simp split: if_splits)
next
  case (3 fuel cs c depth)
  show ?case
  proof (cases "c < length cs")
    case True
    with "3.prems" obtain rest where
      rest: "commit_tree_from fuel cs (parent_commit_id (cs ! c)) (depth + 1) = Some rest"
      and ct: "ct = (c, depth) # rest" by auto
    from "3.IH" [OF True rest] have "map snd rest = [Suc depth..<Suc depth + length rest]" by simp
    with ct show ?thesis by (simp add: upt_rec)
  next
    case False
    with "3.prems" show ?thesis by simp
  qed
qed

lemma commit_tree_from_depth_ge:
  assumes "commit_tree_from n cs co d = Some ct" and "x \<in> set ct"
  shows "d \<le> snd x"
proof -
  from assms(1) have "map snd ct = [d..<d + length ct]" by (rule commit_tree_from_depths)
  moreover from assms(2) have "snd x \<in> set (map snd ct)" by simp
  ultimately have "snd x \<in> set [d..<d + length ct]" by simp
  then show ?thesis by simp
qed

lemma commit_tree_head:
  assumes "commit_tree s c = Some ct" and "c < length (commits s)"
  shows "\<exists>rest. ct = (c, 0) # rest \<and> (\<forall>x \<in> set rest. 0 < snd x)"
proof -
  from assms(2) obtain n where n: "length (commits s) = Suc n" by (cases "length (commits s)") auto
  with assms obtain rest where ct: "ct = (c, 0) # rest"
    and rest: "commit_tree_from n (commits s) (parent_commit_id (commits s ! c)) 1 = Some rest"
    unfolding commit_tree_def by auto
  have "\<forall>x \<in> set rest. 0 < snd x"
    using commit_tree_from_depth_ge [OF rest] by fastforce
  with ct show ?thesis by blast
qed

lemma file_entries_Cons:
  "file_entries s ((c, d) # ct) p =
     map (Pair d) (filter (matches_path p) (files_of_commit s c)) @ file_entries s ct p"
  by (simp add: file_entries_def)

lemma fst_file_entries: "x \<in> set (file_entries s ct p) \<Longrightarrow> fst x \<in> snd ` set ct"
  by (induction ct) (auto simp: file_entries_def)

text \<open>
  The row a query with \<open>limit 1\<close> returns is one of the rows of least key, whichever the
  database chooses.
\<close>

lemma set_least_rows:
  "set (least_rows key rows) = {r \<in> set rows. \<forall>other \<in> set rows. key r \<le> key other}"
  by (auto simp: least_rows_def list_all_iff)

lemma least_rows_nonempty:
  assumes "rows \<noteq> []"
  shows "least_rows key rows \<noteq> []"
proof -
  from assms have fin: "finite (key ` set rows)" and ne: "key ` set rows \<noteq> {}" by auto
  from Min_in [OF fin ne] obtain r where r: "r \<in> set rows" "key r = Min (key ` set rows)"
    by auto
  have "\<forall>other \<in> set rows. key r \<le> key other"
    using fin by (simp add: r(2))
  with r(1) have "r \<in> set (least_rows key rows)" by (simp add: set_least_rows)
  then show ?thesis by auto
qed

lemma order_by_limit_1_None: "order_by_limit_1 choice key rows = None \<longleftrightarrow> rows = []"
proof
  assume "order_by_limit_1 choice key rows = None"
  then have "least_rows key rows = []"
    by (simp add: order_by_limit_1_def Let_def split: if_splits)
  with least_rows_nonempty [of rows key] show "rows = []" by blast
next
  assume "rows = []"
  then show "order_by_limit_1 choice key rows = None"
    by (simp add: order_by_limit_1_def least_rows_def)
qed

lemma order_by_limit_1_Some:
  assumes "order_by_limit_1 choice key rows = Some r"
  shows "r \<in> set (least_rows key rows)"
proof -
  let ?tied = "least_rows key rows"
  from assms have ne: "?tied \<noteq> []" and r: "r = ?tied ! (choice ?tied mod length ?tied)"
    by (auto simp: order_by_limit_1_def Let_def split: if_splits)
  from ne have "choice ?tied mod length ?tied < length ?tied" by simp
  then show ?thesis unfolding r by (rule nth_mem)
qed

lemma order_by_limit_1_nonempty:
  assumes "rows \<noteq> []"
  shows "\<exists>r. order_by_limit_1 choice key rows = Some r \<and> r \<in> set (least_rows key rows)"
proof (cases "order_by_limit_1 choice key rows")
  case None
  with assms show ?thesis by (simp add: order_by_limit_1_None)
next
  case (Some r)
  then show ?thesis by (simp add: order_by_limit_1_Some)
qed

lemma file_entries_append:
  "file_entries s (xs @ ys) p = file_entries s xs p @ file_entries s ys p"
  by (simp add: file_entries_def)

lemma file_entries_empty:
  "(\<forall>x \<in> set ct. filter (matches_path p) (files_of_commit s (fst x)) = [])
     \<Longrightarrow> file_entries s ct p = []"
  by (induction ct) (auto simp: file_entries_def)

lemma select_file_entry_at_depth:
  assumes "commit_tree s c = Some ct" and "(ci, d) \<in> set ct"
    and "\<forall>x \<in> set ct. snd x < d \<longrightarrow> filter (matches_path p) (files_of_commit s (fst x)) = []"
    and "filter (matches_path p) (files_of_commit s ci) \<noteq> []"
  shows "\<exists>f. select_file_entry env s c p = Some (Some f)
           \<and> f \<in> set (files_of_commit s ci) \<and> matches_path p f"
proof -
  let ?here = "filter (matches_path p) (files_of_commit s ci)"
  from assms(2) obtain pre post where ct: "ct = pre @ (ci, d) # post"
    by (auto dest: split_list)
  from assms(1) have "map snd ct = [0..<length ct]"
    unfolding commit_tree_def using commit_tree_from_depths by fastforce
  then have inc: "sorted_wrt (<) (map snd ct)" by (simp add: sorted_wrt_upt del: upt.simps)
  then have "\<forall>x \<in> set pre. snd x < d" by (auto simp: ct sorted_wrt_append)
  with assms(3) have "\<forall>x \<in> set pre. filter (matches_path p) (files_of_commit s (fst x)) = []"
    by (auto simp: ct)
  then have "file_entries s pre p = []" by (rule file_entries_empty)
  then have fe: "file_entries s ct p = map (Pair d) ?here @ file_entries s post p"
    by (simp add: ct file_entries_append file_entries_Cons)
  from inc have post: "\<forall>x \<in> set post. d < snd x" by (auto simp: ct sorted_wrt_append)
  from assms(4) obtain f0 fs where f0: "?here = f0 # fs" by (cases ?here) auto
  then have mem0: "(d, f0) \<in> set (file_entries s ct p)" by (simp add: fe)
  then have "file_entries s ct p \<noteq> []" by auto
  from order_by_limit_1_nonempty [OF this, of "first_file_entry env" fst]
  obtain r where r: "order_by_limit_1 (first_file_entry env) fst (file_entries s ct p) = Some r"
    and tied: "r \<in> set (least_rows fst (file_entries s ct p))" by blast
  from tied have rin: "r \<in> set (file_entries s ct p)" and "fst r \<le> fst (d, f0)"
    using mem0 by (auto simp: set_least_rows)
  then have le: "fst r \<le> d" by simp
  have "r \<in> set (map (Pair d) ?here)"
  proof (rule ccontr)
    assume "r \<notin> set (map (Pair d) ?here)"
    with rin have "r \<in> set (file_entries s post p)" by (simp add: fe)
    then have "fst r \<in> snd ` set post" by (rule fst_file_entries)
    with post have "d < fst r" by auto
    with le show False by simp
  qed
  then have "snd r \<in> set ?here" by auto
  then have "snd r \<in> set (files_of_commit s ci)" and "matches_path p (snd r)" by simp_all
  moreover have "select_file_entry env s c p = Some (Some (snd r))"
    using assms(1) r by (simp add: select_file_entry_def)
  ultimately show ?thesis by blast
qed

lemma select_file_entry_head:
  assumes "commit_tree s c = Some ct" and "c < length (commits s)"
    and "filter (matches_path p) (files_of_commit s c) \<noteq> []"
  shows "\<exists>f. select_file_entry env s c p = Some (Some f)
           \<and> f \<in> set (files_of_commit s c) \<and> matches_path p f"
proof -
  from commit_tree_head [OF assms(1,2)] obtain rest where ct: "ct = (c, 0) # rest" by blast
  then have "(c, 0) \<in> set ct" by simp
  moreover have "\<forall>x \<in> set ct. snd x < 0 \<longrightarrow> filter (matches_path p) (files_of_commit s (fst x)) = []"
    by simp
  ultimately show ?thesis using assms(1,3) by (intro select_file_entry_at_depth) 
qed

section \<open>Reading files: tombstones and renames\<close>

lemma files_of_commit_mem: "f \<in> set (files_of_commit s c) \<longleftrightarrow> f \<in> set (files s) \<and> file_commit_id f = c"
  by (auto simp: files_of_commit_def)

lemma unique_commit_pathD:
  assumes "unique_commit_path s" and "f \<in> set (files s)" and "g \<in> set (files s)"
    and "file_commit_id f = file_commit_id g" and "path f = path g"
  shows "f = g"
proof -
  have "inj_on (\<lambda>f. (file_commit_id f, path f)) (set (files s))"
    using assms(1) unfolding unique_commit_path_def by (rule distinct_map [THEN iffD1, THEN conjunct2])
  then show ?thesis using assms(2-5) by (auto dest: inj_onD)
qed

lemma filter_nonempty: "x \<in> set xs \<Longrightarrow> P x \<Longrightarrow> \<exists>y ys. filter P xs = y # ys"
proof -
  assume "x \<in> set xs" and "P x"
  then have "filter P xs \<noteq> []" by (auto simp: filter_empty_conv)
  then show ?thesis by (cases "filter P xs") auto
qed

text \<open>
  C6 (amended). Let commit \<open>c\<close> contain a delta \<open>r\<close> at path \<open>B\<close> with previous path
  \<open>A\<close>, \<open>A \<noteq> B\<close>, both normalized, where \<open>r\<close> is not a tombstone, \<open>c\<close> holds no delta
  at path \<open>A\<close> and no delta whose previous path is \<open>B\<close>. Then \<open>readFile c A\<close> is absent
  and \<open>readFile c B\<close> returns the content stored in \<open>r\<close>, whichever row the database
  returns first among rows of equal depth. The store satisfies the schema (links to older
  commits, unique (commit, path)).
\<close>

theorem rename_read:
  assumes "older_links (commits s)" and "unique_commit_path s"
    and "c < length (commits s)"
    and "r \<in> set (files s)" and "file_commit_id r = c"
    and "path r = B" and "previous_path r = Some A" and "A \<noteq> B"
    and "normalizePath A = Inr A" and "normalizePath B = Inr B"
    and "\<not> is_deleted r"
    and "\<forall>f \<in> set (files_of_commit s c). path f \<noteq> A"
    and "\<forall>f \<in> set (files_of_commit s c). previous_path f \<noteq> Some B"
  shows "readFile env s c A = Returns None \<and> readFile env s c B = Returns (Some (content r))"
proof
  from commit_tree_terminates [OF assms(1)] obtain ct where ct: "commit_tree s c = Some ct"
    by blast
  have rc: "r \<in> set (files_of_commit s c)" using assms(4,5) by (simp add: files_of_commit_mem)
  have mA: "matches_path A r" using assms(7) by (simp add: matches_path_def)
  from filter_nonempty [OF rc, of "matches_path A", OF mA]
  have "filter (matches_path A) (files_of_commit s c) \<noteq> []" by auto
  from select_file_entry_head [OF ct assms(3) this]
  obtain f where sf: "select_file_entry env s c A = Some (Some f)"
    and f: "f \<in> set (files_of_commit s c)" "matches_path A f" by blast
  with assms(12) have pf: "previous_path f = Some A" "path f \<noteq> A"
    by (auto simp: matches_path_def)
  show "readFile env s c A = Returns None"
    by (simp add: readFile_def row_def assms(3) assms(9) sf pf)
  have mB: "matches_path B r" using assms(6) by (simp add: matches_path_def)
  from filter_nonempty [OF rc, of "matches_path B", OF mB]
  have "filter (matches_path B) (files_of_commit s c) \<noteq> []" by auto
  from select_file_entry_head [OF ct assms(3) this]
  obtain g where sg: "select_file_entry env s c B = Some (Some g)"
    and g: "g \<in> set (files_of_commit s c)" "matches_path B g" by blast
  with assms(13) have "path g = B" by (auto simp: matches_path_def)
  with g(1) assms(4,5,6) have "g = r"
    by (intro unique_commit_pathD [OF assms(2)]) (simp_all add: files_of_commit_mem)
  with sg have sr: "select_file_entry env s c B = Some (Some r)" by simp
  have "Some A \<noteq> Some B" using assms(8) by simp
  then show "readFile env s c B = Returns (Some (content r))"
    by (simp add: readFile_def row_def assms(3) assms(10) sr assms(11) assms(7))
qed

text \<open>
  The claim as stated fails in three ways, each in a store built by the write operations
  themselves. A delta with a previous path may be a tombstone (\<open>writeFile\<close> with
  \<open>isDeleted\<close>), and then path \<open>B\<close> reads as absent. The same commit may also write path
  \<open>A\<close> after the move: two rows then match \<open>A\<close> at depth 0, the query may return either,
  and when it returns the row written last the read of \<open>A\<close> gives the new content. The same
  commit may move \<open>B\<close> on to a third path: two rows then match \<open>B\<close> at depth 0, and when
  the query returns the row written last the read of \<open>B\<close> is absent.
\<close>

theorem rename_read_counterexample:
  "files moved_tombstone = [(moved_file 0 ''/a'' ''/b'' [])\<lparr>is_deleted := True\<rparr>]
   \<and> readFile code_unit_env moved_tombstone 0 (str ''/b'') = Returns None
   \<and> readFile last_row_env moved_tombstone 0 (str ''/b'') = Returns None
   \<and> files renamed_and_rewritten = [moved_file 0 ''/a'' ''/b'' ''x'', plain_file 0 ''/a'' ''new'']
   \<and> least_rows fst (file_entries renamed_and_rewritten [(0, 0)] (str ''/a''))
       = [(0, moved_file 0 ''/a'' ''/b'' ''x''), (0, plain_file 0 ''/a'' ''new'')]
   \<and> readFile last_row_env renamed_and_rewritten 0 (str ''/a'') = Returns (Some (str ''new''))
   \<and> files moved_on = [moved_file 0 ''/a'' ''/b'' ''x'', moved_file 0 ''/b'' ''/d'' ''y'']
   \<and> least_rows fst (file_entries moved_on [(0, 0)] (str ''/b''))
       = [(0, moved_file 0 ''/a'' ''/b'' ''x''), (0, moved_file 0 ''/b'' ''/d'' ''y'')]
   \<and> readFile last_row_env moved_on 0 (str ''/b'') = Returns None"
proof -
  have 1: "files moved_tombstone = [(moved_file 0 ''/a'' ''/b'' [])\<lparr>is_deleted := True\<rparr>]"
    by code_simp
  have 2: "readFile code_unit_env moved_tombstone 0 (str ''/b'') = Returns None" by code_simp
  have 3: "readFile last_row_env moved_tombstone 0 (str ''/b'') = Returns None" by code_simp
  have 4: "files renamed_and_rewritten
             = [moved_file 0 ''/a'' ''/b'' ''x'', plain_file 0 ''/a'' ''new'']"
    by code_simp
  have 5: "least_rows fst (file_entries renamed_and_rewritten [(0, 0)] (str ''/a''))
       = [(0, moved_file 0 ''/a'' ''/b'' ''x''), (0, plain_file 0 ''/a'' ''new'')]"
    by code_simp
  have 6: "readFile last_row_env renamed_and_rewritten 0 (str ''/a'') = Returns (Some (str ''new''))"
    by code_simp
  have 7: "files moved_on = [moved_file 0 ''/a'' ''/b'' ''x'', moved_file 0 ''/b'' ''/d'' ''y'']"
    by code_simp
  have 8: "least_rows fst (file_entries moved_on [(0, 0)] (str ''/b''))
       = [(0, moved_file 0 ''/a'' ''/b'' ''x''), (0, moved_file 0 ''/b'' ''/d'' ''y'')]"
    by code_simp
  have 9: "readFile last_row_env moved_on 0 (str ''/b'') = Returns None" by code_simp
  show ?thesis by (intro conjI) (rule 1 2 3 4 5 6 7 8 9)+
qed

theorem rename_read_witness:
  "older_links (commits renamed_once) \<and> unique_commit_path renamed_once
   \<and> (0::nat) < length (commits renamed_once)
   \<and> files renamed_once = [plain_file 0 ''/c'' ''z'', moved_file 0 ''/a'' ''/b'' ''x'']
   \<and> normalizePath (str ''/a'') = Inr (str ''/a'') \<and> normalizePath (str ''/b'') = Inr (str ''/b'')
   \<and> readFile last_row_env renamed_once 0 (str ''/a'') = Returns None
   \<and> readFile last_row_env renamed_once 0 (str ''/b'') = Returns (Some (str ''x''))"
proof -
  let ?r = "moved_file 0 ''/a'' ''/b'' ''x''"
  have fs: "files renamed_once = [plain_file 0 ''/c'' ''z'', ?r]" by code_simp
  have 1: "older_links (commits renamed_once)" by code_simp
  have 2: "unique_commit_path renamed_once" by code_simp
  have 3: "(0::nat) < length (commits renamed_once)" by code_simp
  have 4: "?r \<in> set (files renamed_once)" by (simp add: fs)
  have 5: "file_commit_id ?r = 0" "path ?r = str ''/b''" "previous_path ?r = Some (str ''/a'')"
    "str ''/a'' \<noteq> str ''/b''" "\<not> is_deleted ?r" "content ?r = str ''x''"
    by (simp_all add: moved_file_def plain_file_def str_def)
  have 6: "normalizePath (str ''/a'') = Inr (str ''/a'')" by code_simp
  have 9: "normalizePath (str ''/b'') = Inr (str ''/b'')" by code_simp
  have foc: "files_of_commit renamed_once 0 = [plain_file 0 ''/c'' ''z'', ?r]" by code_simp
  have 7: "\<forall>f \<in> set (files_of_commit renamed_once 0). path f \<noteq> str ''/a''"
    unfolding foc by (simp add: moved_file_def plain_file_def str_def)
  have 8: "\<forall>f \<in> set (files_of_commit renamed_once 0). previous_path f \<noteq> Some (str ''/b'')"
    unfolding foc by (simp add: moved_file_def plain_file_def str_def)
  from rename_read [OF 1 2 3 4 5(1) 5(2) 5(3) 5(4) 6 9 5(5) 7 8, of last_row_env]
  have "readFile last_row_env renamed_once 0 (str ''/a'') = Returns None"
    and "readFile last_row_env renamed_once 0 (str ''/b'') = Returns (Some (str ''x''))"
    by (simp_all only: 5(6))
  with 1 2 3 fs 6 9 show ?thesis by blast
qed

text \<open>
  C8. For an existing commit and a path: when the closest ancestor holding any delta for the
  normalized path (the smallest depth of the chain at which a row matches it) holds a
  tombstone of that path, \<open>readFile\<close> returns absent, whatever older ancestors wrote to
  the path and whichever row of that depth the database returns first. The store satisfies
  \<open>unique (commit_id, path)\<close>; \<open>ct\<close> names the chain of the commit.
\<close>

theorem readFile_tombstone_absent:
  assumes "unique_commit_path s"
    and "commitId < length (commits s)" and "normalizePath p = Inr q"
    and "commit_tree s commitId = Some ct" and "(ci, d) \<in> set ct"
    and "t \<in> set (files_of_commit s ci)" and "path t = q" and "is_deleted t"
    and "\<forall>x \<in> set ct. snd x < d \<longrightarrow> filter (matches_path q) (files_of_commit s (fst x)) = []"
  shows "readFile env s commitId p = Returns None"
proof -
  have "matches_path q t" using assms(7) by (simp add: matches_path_def)
  from filter_nonempty [OF assms(6), of "matches_path q", OF this]
  have "filter (matches_path q) (files_of_commit s ci) \<noteq> []" by auto
  from select_file_entry_at_depth [OF assms(4,5,9) this]
  obtain f where sel: "select_file_entry env s commitId q = Some (Some f)"
    and f: "f \<in> set (files_of_commit s ci)" "matches_path q f" by blast
  have "is_deleted f \<or> (previous_path f = Some q \<and> path f \<noteq> q)"
  proof (cases "path f = q")
    case True
    with f(1) assms(6,7) have "f = t"
      by (intro unique_commit_pathD [OF assms(1)]) (simp_all add: files_of_commit_mem)
    with assms(8) show ?thesis by simp
  next
    case False
    with f(2) show ?thesis by (simp add: matches_path_def)
  qed
  then show ?thesis
    using assms(2,3) sel by (auto simp: readFile_def row_def)
qed

theorem readFile_tombstone_absent_witness:
  "unique_commit_path tombstone_chain \<and> (2::nat) < length (commits tombstone_chain)
   \<and> normalizePath (str ''a'') = Inr (str ''/a'')
   \<and> commit_tree tombstone_chain 2 = Some [(2, 0), (1, 1), (0, 2)]
   \<and> files tombstone_chain
       = [plain_file 0 ''/a'' ''hello'', (plain_file 1 ''/a'' [])\<lparr>is_deleted := True\<rparr>,
          plain_file 2 ''/b'' ''other'']
   \<and> readFile code_unit_env tombstone_chain 2 (str ''a'') = Returns None
   \<and> readFile code_unit_env tombstone_chain 0 (str ''a'') = Returns (Some (str ''hello''))
   \<and> unique_commit_path deleted_and_moved \<and> (1::nat) < length (commits deleted_and_moved)
   \<and> commit_tree deleted_and_moved 1 = Some [(1, 0), (0, 1)]
   \<and> files deleted_and_moved
       = [plain_file 0 ''/a'' ''hello'', (plain_file 1 ''/a'' [])\<lparr>is_deleted := True\<rparr>,
          moved_file 1 ''/a'' ''/b'' ''x'']
   \<and> readFile code_unit_env deleted_and_moved 1 (str ''a'') = Returns None
   \<and> readFile last_row_env deleted_and_moved 1 (str ''a'') = Returns None"
proof -
  let ?t = "(plain_file 1 ''/a'' [])\<lparr>is_deleted := True\<rparr>"
  have 1: "unique_commit_path tombstone_chain" by code_simp
  have 2: "(2::nat) < length (commits tombstone_chain)" by code_simp
  have 3: "normalizePath (str ''a'') = Inr (str ''/a'')" by code_simp
  have 4: "commit_tree tombstone_chain 2 = Some [(2, 0), (1, 1), (0, 2)]" by code_simp
  have 5: "((1::nat), (1::nat)) \<in> set [(2, 0), (1, 1), (0, 2)]" by simp
  have fs: "files tombstone_chain = [plain_file 0 ''/a'' ''hello'', ?t, plain_file 2 ''/b'' ''other'']"
    by code_simp
  have 6: "?t \<in> set (files_of_commit tombstone_chain 1)" by code_simp
  have 7: "path ?t = str ''/a''" "is_deleted ?t" by (simp_all add: plain_file_def)
  have 8: "\<forall>x \<in> set [((2::nat), (0::nat)), (1, 1), (0, 2)].
             snd x < 1 \<longrightarrow> filter (matches_path (str ''/a'')) (files_of_commit tombstone_chain (fst x)) = []"
    by code_simp
  have 9: "readFile code_unit_env tombstone_chain 0 (str ''a'') = Returns (Some (str ''hello''))"
    by code_simp
  have 10: "unique_commit_path deleted_and_moved" by code_simp
  have 11: "(1::nat) < length (commits deleted_and_moved)" by code_simp
  have 12: "commit_tree deleted_and_moved 1 = Some [(1, 0), (0, 1)]" by code_simp
  have 13: "((1::nat), (0::nat)) \<in> set [(1, 0), (0, 1)]" by simp
  have fs': "files deleted_and_moved = [plain_file 0 ''/a'' ''hello'', ?t, moved_file 1 ''/a'' ''/b'' ''x'']"
    by code_simp
  have 14: "?t \<in> set (files_of_commit deleted_and_moved 1)" by code_simp
  have 15: "\<forall>x \<in> set [((1::nat), (0::nat)), (0, 1)].
             snd x < 0 \<longrightarrow> filter (matches_path (str ''/a'')) (files_of_commit deleted_and_moved (fst x)) = []"
    by simp
  note a = readFile_tombstone_absent [OF 1 2 3 4 5 6 7 8, of code_unit_env]
  note b = readFile_tombstone_absent [OF 10 11 3 12 13 14 7 15, of code_unit_env]
  note c = readFile_tombstone_absent [OF 10 11 3 12 13 14 7 15, of last_row_env]
  show ?thesis by (intro conjI) (rule 1 2 3 4 fs a 9 10 11 12 fs' b c)+
qed

section \<open>Operations per ancestor depth\<close>

lemma length_filter_key_le_1:
  "distinct (map f xs) \<Longrightarrow> length (filter (\<lambda>x. f x = v) xs) \<le> 1"
proof (induction xs)
  case Nil
  then show ?case by simp
next
  case (Cons a xs)
  show ?case
  proof (cases "f a = v")
    case True
    have "\<forall>x \<in> set xs. f x \<noteq> v"
    proof (intro ballI notI)
      fix x assume "x \<in> set xs" and "f x = v"
      then have "v \<in> f ` set xs" by (rule rev_image_eqI [OF _ sym])
      with Cons.prems True show False by simp
    qed
    then have "filter (\<lambda>x. f x = v) xs = []" by (simp add: filter_empty_conv)
    with True show ?thesis by simp
  next
    case False
    with Cons show ?thesis by simp
  qed
qed

lemma distinct_paths_of_commit:
  assumes "unique_commit_path s"
  shows "distinct (map path (files_of_commit s c))"
proof -
  have "distinct (map (\<lambda>f. (file_commit_id f, path f)) (files_of_commit s c))"
    using assms unfolding unique_commit_path_def files_of_commit_def by (rule distinct_map_filter)
  then have "distinct (files_of_commit s c)"
    and inj: "inj_on (\<lambda>f. (file_commit_id f, path f)) (set (files_of_commit s c))"
    by (simp_all add: distinct_map)
  moreover have "inj_on path (set (files_of_commit s c))"
  proof (rule inj_onI)
    fix f g assume "f \<in> set (files_of_commit s c)" "g \<in> set (files_of_commit s c)" "path f = path g"
    moreover from this have "file_commit_id f = file_commit_id g" by (simp add: files_of_commit_mem)
    ultimately show "f = g" using inj by (auto dest: inj_onD)
  qed
  ultimately show ?thesis by (simp add: distinct_map)
qed

lemma distinct_keys_concat:
  fixes key :: "'a \<Rightarrow> nat \<times> 'b"
  assumes "distinct (map snd ct)"
    and "\<forall>x \<in> set ct. distinct (map key (g x))"
    and "\<forall>x \<in> set ct. \<forall>y \<in> set (g x). fst (key y) = snd x"
  shows "distinct (map key (concat (map g ct)))"
  using assms
proof (induction ct)
  case Nil
  then show ?case by simp
next
  case (Cons a ct)
  have "distinct (map key (concat (map g ct)))" using Cons by simp
  moreover have "distinct (map key (g a))" using Cons.prems(2) by simp
  moreover have "set (map key (g a)) \<inter> set (map key (concat (map g ct))) = {}"
  proof -
    have 1: "\<forall>k \<in> set (map key (g a)). fst k = snd a" using Cons.prems(3) by auto
    have 2: "\<forall>k \<in> set (map key (concat (map g ct))). fst k \<in> snd ` set ct"
      using Cons.prems(3) by auto
    have 3: "snd a \<notin> snd ` set ct" using Cons.prems(1) by simp
    show ?thesis
    proof (rule equals0I)
      fix k assume "k \<in> set (map key (g a)) \<inter> set (map key (concat (map g ct)))"
      then have "k \<in> set (map key (g a))" and "k \<in> set (map key (concat (map g ct)))"
        by blast+
      with 1 2 have "fst k = snd a" and "fst k \<in> snd ` set ct" by blast+
      with 3 show False by simp
    qed
  qed
  ultimately show ?case by simp
qed

lemma commit_tree_distinct_depths:
  assumes "commit_tree s c = Some ct"
  shows "distinct (map snd ct)"
proof -
  from assms have "map snd ct = [0..<length ct]"
    unfolding commit_tree_def using commit_tree_from_depths by fastforce
  then show ?thesis by simp
qed


lemma distinct_map_Pair: "distinct (map f xs) \<Longrightarrow> distinct (map (\<lambda>x. (d, f x)) xs)"
  by (induction xs) auto

lemma write_operations_distinct:
  assumes "unique_commit_path s" and "distinct (map snd ct)"
  shows "distinct (map (\<lambda>op. (op_depth op, affected_path op))
           (concat (map (\<lambda>(c, depth). map (write_operation depth) (files_of_commit s c)) ct)))"
proof (rule distinct_keys_concat [OF assms(2)])
  show "\<forall>x \<in> set ct. distinct (map (\<lambda>op. (op_depth op, affected_path op))
          ((\<lambda>(c, depth). map (write_operation depth) (files_of_commit s c)) x))"
  proof
    fix x assume "x \<in> set ct"
    obtain c d where x: "x = (c, d)" by (cases x)
    have "distinct (map (\<lambda>f. (d, path f)) (files_of_commit s c))"
      using distinct_paths_of_commit [OF assms(1)] by (rule distinct_map_Pair)
    then show "distinct (map (\<lambda>op. (op_depth op, affected_path op))
          ((\<lambda>(c, depth). map (write_operation depth) (files_of_commit s c)) x))"
      by (simp add: x write_operation_def comp_def)
  qed
  show "\<forall>x \<in> set ct. \<forall>y \<in> set ((\<lambda>(c, depth). map (write_operation depth) (files_of_commit s c)) x).
          fst (op_depth y, affected_path y) = snd x"
    by (auto simp: write_operation_def)
qed

lemma file_entries_distinct:
  assumes "unique_commit_path s" and "distinct (map snd ct)"
  shows "distinct (map (\<lambda>x. (fst x, path (snd x))) (file_entries s ct p))"
  unfolding file_entries_def
proof (rule distinct_keys_concat [OF assms(2)])
  show "\<forall>x \<in> set ct. distinct (map (\<lambda>x. (fst x, path (snd x)))
          ((\<lambda>(c, depth). map (Pair depth) (filter (matches_path p) (files_of_commit s c))) x))"
  proof
    fix x assume "x \<in> set ct"
    obtain c d where x: "x = (c, d)" by (cases x)
    have "distinct (map path (filter (matches_path p) (files_of_commit s c)))"
      using distinct_paths_of_commit [OF assms(1)] by (rule distinct_map_filter)
    then have "distinct (map (\<lambda>f. (d, path f)) (filter (matches_path p) (files_of_commit s c)))"
      by (rule distinct_map_Pair)
    then show "distinct (map (\<lambda>x. (fst x, path (snd x)))
          ((\<lambda>(c, depth). map (Pair depth) (filter (matches_path p) (files_of_commit s c))) x))"
      by (simp add: x comp_def)
  qed
  show "\<forall>x \<in> set ct. \<forall>y \<in> set ((\<lambda>(c, depth). map (Pair depth)
          (filter (matches_path p) (files_of_commit s c))) x). fst (fst y, path (snd y)) = snd x"
    by auto
qed

lemma move_away_operations_flag:
  "op \<in> set (concat (map (\<lambda>(c, depth). concat (map (move_away_operation depth) (files_of_commit s c))) ct))
     \<Longrightarrow> is_move_away op"
  by (auto simp: move_away_operation_def split: option.splits)

lemma write_operations_flag:
  "op \<in> set (concat (map (\<lambda>(c, depth). map (write_operation depth) (files_of_commit s c)) ct))
     \<Longrightarrow> \<not> is_move_away op"
  by (auto simp: write_operation_def)

text \<open>
  C3 (amended). In a store satisfying \<open>unique (commit_id, path)\<close>, for every commit, path
  and depth of the ancestor chain: the chain holds at most one commit at that depth; at
  most one operation of the snapshot query at that depth is a write or tombstone of the
  path itself; and at most one row of \<open>readFile\<close>'s query at that depth has the path as
  its own path. Move-away operations (rows whose previous path is the queried path) are not
  bounded, so equal depths can tie.
\<close>

theorem one_write_per_depth:
  assumes "unique_commit_path s" and "commit_tree s c = Some ct"
  shows "length (commits_at_depth d ct) \<le> 1
       \<and> length (own_writes (operations_at_depth d (operations_on p (all_operations s ct)))) \<le> 1
       \<and> length (own_entries p (entries_at_depth d (file_entries s ct p))) \<le> 1"
proof (intro conjI)
  have dd: "distinct (map snd ct)" using assms(2) by (rule commit_tree_distinct_depths)
  then show "length (commits_at_depth d ct) \<le> 1"
    unfolding commits_at_depth_def by (rule length_filter_key_le_1)
  let ?W = "concat (map (\<lambda>(c, depth). map (write_operation depth) (files_of_commit s c)) ct)"
  let ?M = "concat (map (\<lambda>(c, depth). concat (map (move_away_operation depth) (files_of_commit s c))) ct)"
  have "own_writes (operations_at_depth d (operations_on p ?M)) = []"
    unfolding own_writes_def operations_at_depth_def operations_on_def
    using move_away_operations_flag [of _ s ct] by (simp add: filter_empty_conv)
  moreover have "own_writes (operations_at_depth d (operations_on p ?W))
      = filter (\<lambda>op. (op_depth op, affected_path op) = (d, p)) ?W"
    unfolding own_writes_def operations_at_depth_def operations_on_def
    using write_operations_flag [of _ s ct] by (auto intro: filter_cong)
  ultimately have "own_writes (operations_at_depth d (operations_on p (all_operations s ct)))
      = filter (\<lambda>op. (op_depth op, affected_path op) = (d, p)) ?W"
    by (simp add: all_operations_def own_writes_def operations_at_depth_def operations_on_def)
  moreover have "length (filter (\<lambda>op. (op_depth op, affected_path op) = (d, p)) ?W) \<le> 1"
    using write_operations_distinct [OF assms(1) dd] by (rule length_filter_key_le_1)
  ultimately show "length (own_writes (operations_at_depth d (operations_on p (all_operations s ct)))) \<le> 1"
    by simp
  have "own_entries p (entries_at_depth d (file_entries s ct p))
      = filter (\<lambda>x. (fst x, path (snd x)) = (d, p)) (file_entries s ct p)"
    unfolding own_entries_def entries_at_depth_def by (auto intro: filter_cong)
  moreover have "length (filter (\<lambda>x. (fst x, path (snd x)) = (d, p)) (file_entries s ct p)) \<le> 1"
    using file_entries_distinct [OF assms(1) dd] by (rule length_filter_key_le_1)
  ultimately show "length (own_entries p (entries_at_depth d (file_entries s ct p))) \<le> 1"
    by simp
qed

theorem one_write_per_depth_witness:
  "unique_commit_path renamed_and_rewritten
   \<and> commit_tree renamed_and_rewritten 0 = Some [(0, 0)]
   \<and> length (commits_at_depth 0 [(0, 0)]) \<le> 1
   \<and> length (own_writes (operations_at_depth 0
         (operations_on (str ''/a'') (all_operations renamed_and_rewritten [(0, 0)])))) \<le> 1
   \<and> length (own_entries (str ''/a'') (entries_at_depth 0
         (file_entries renamed_and_rewritten [(0, 0)] (str ''/a'')))) \<le> 1"
proof -
  have 1: "unique_commit_path renamed_and_rewritten" by code_simp
  have 2: "commit_tree renamed_and_rewritten 0 = Some [(0, 0)]" by code_simp
  from one_write_per_depth [OF 1 2, of 0 "str ''/a''"] 1 2 show ?thesis by blast
qed

text \<open>
  The claim as stated fails: \<open>moveFile\<close> from \<open>/a\<close> to \<open>/b\<close> followed by \<open>writeFile\<close> of
  \<open>/a\<close> in the same commit are both accepted, and then two operations affect \<open>/a\<close> at
  depth 0, in the snapshot query and in \<open>readFile\<close>'s query alike.
\<close>

theorem one_operation_per_depth_counterexample:
  "files renamed_and_rewritten = [moved_file 0 ''/a'' ''/b'' ''x'', plain_file 0 ''/a'' ''new'']
   \<and> commit_tree renamed_and_rewritten 0 = Some [(0, 0)]
   \<and> length (operations_at_depth 0
         (operations_on (str ''/a'') (all_operations renamed_and_rewritten [(0, 0)]))) = 2
   \<and> length (entries_at_depth 0
         (file_entries renamed_and_rewritten [(0, 0)] (str ''/a''))) = 2"
proof -
  have 1: "files renamed_and_rewritten
             = [moved_file 0 ''/a'' ''/b'' ''x'', plain_file 0 ''/a'' ''new'']" by code_simp
  have 2: "commit_tree renamed_and_rewritten 0 = Some [(0, 0)]" by code_simp
  have 3: "length (operations_at_depth 0
         (operations_on (str ''/a'') (all_operations renamed_and_rewritten [(0, 0)]))) = 2"
    by code_simp
  have 4: "length (entries_at_depth 0
         (file_entries renamed_and_rewritten [(0, 0)] (str ''/a''))) = 2" by code_simp
  from 1 2 3 4 show ?thesis by blast
qed

text \<open>
  Nor are the moves away from one path bounded: \<open>moveFile\<close> from \<open>/a\<close> to \<open>/b\<close> and
  from \<open>/a\<close> to \<open>/c\<close> in one commit are both accepted and give two move-away operations
  on \<open>/a\<close> at depth 0.
\<close>

lemma two_moves_away_at_one_depth:
  "files moved_away_twice = [moved_file 0 ''/a'' ''/b'' ''x'', moved_file 0 ''/a'' ''/c'' ''y'']
   \<and> length (operations_at_depth 0
         (operations_on (str ''/a'') (all_operations moved_away_twice [(0, 0)]))) = 2
   \<and> length (entries_at_depth 0
         (file_entries moved_away_twice [(0, 0)] (str ''/a''))) = 2"
proof -
  have 1: "files moved_away_twice
             = [moved_file 0 ''/a'' ''/b'' ''x'', moved_file 0 ''/a'' ''/c'' ''y'']" by code_simp
  have 2: "length (operations_at_depth 0
         (operations_on (str ''/a'') (all_operations moved_away_twice [(0, 0)]))) = 2"
    by code_simp
  have 3: "length (entries_at_depth 0
         (file_entries moved_away_twice [(0, 0)] (str ''/a''))) = 2" by code_simp
  from 1 2 3 show ?thesis by blast
qed

section \<open>The write operations keep the schema invariants\<close>

lemma insert_file_unique:
  assumes "unique_commit_path s" and "insert_file s f = (r, s')"
  shows "unique_commit_path s'"
proof (cases "file_commit_id f < length (commits s)
    \<and> \<not> list_ex (\<lambda>g. file_commit_id g = file_commit_id f \<and> path g = path f) (files s)")
  case True
  then have s': "s' = s\<lparr>files := files s @ [f]\<rparr>"
    using assms(2) by (simp add: insert_file_def)
  from True have "(file_commit_id f, path f) \<notin> set (map (\<lambda>f. (file_commit_id f, path f)) (files s))"
    by (auto simp: list_ex_iff)
  with assms(1) show ?thesis by (simp add: s' unique_commit_path_def)
next
  case False
  then have "s' = s" using assms(2) by (auto simp: insert_file_def split: if_splits)
  with assms(1) show ?thesis by simp
qed

lemma writeFile_unique:
  assumes "unique_commit_path s" and "writeFile s c p t options = (r, s')"
  shows "unique_commit_path s'"
  using assms
  by (auto simp: writeFile_def Let_def split: sum.splits option.splits if_splits
      dest: insert_file_unique)

lemma in_repository_exists: "in_repository s rp c \<Longrightarrow> c < length (commits s)"
  by (auto simp: in_repository_def row_def split: option.splits if_splits)

lemma insert_commit_older_links:
  assumes "older_links (commits s)" and "insert_commit s k = (r, s')"
  shows "older_links (commits s')"
proof (cases "\<exists>x. r = Returns x")
  case True
  with assms(2) have s': "commits s' = commits s @ [k]"
    and p: "\<forall>p. parent_commit_id k = Some p \<longrightarrow> in_repository s (commit_repository_id k) p"
    and m: "\<forall>p. merged_from_commit_id k = Some p \<longrightarrow> in_repository s (commit_repository_id k) p"
    by (auto simp: insert_commit_def split: if_splits option.splits)
  have "\<forall>p \<in> set (links k). p < length (commits s)"
    using p m in_repository_exists
    by (auto simp: links_def List.map_filter_simps split: option.splits)
  with assms(1) show ?thesis
    by (simp add: s' older_links_def enumerate_append_eq list_all_iff)
next
  case False
  with assms(2) have "s' = s" by (auto simp: insert_commit_def split: if_splits)
  with assms(1) show ?thesis by simp
qed

section \<open>Merge base\<close>

lemma set_foldl_set_add: "set (foldl set_add acc xs) = set acc \<union> set xs"
  by (induction xs arbitrary: acc) (auto simp: set_add_def)

lemma set_new_Set: "set (new_Set xs) = set xs"
  by (simp add: new_Set_def set_foldl_set_add)



lemma set_common:
  "set (common la ra)
     = (\<lambda>i. (i, Min (set (total_depths la ra i)))) ` (fst ` set la \<inter> fst ` set ra)"
proof -
  have "set (new_Set (filter (\<lambda>i. i \<in> set (map fst ra)) (map fst la)))
          = fst ` set la \<inter> fst ` set ra"
    unfolding set_new_Set by auto
  then show ?thesis unfolding common_def set_map by (rule arg_cong)
qed



lemma getMergeBase_common_ancestor:
  assumes "getMergeBase env s x y = Returns b"
  shows "is_ancestor s b x \<and> is_ancestor s b y"
proof -
  from assms obtain la ra where la: "ancestors s x = Some la" and ra: "ancestors s y = Some ra"
    by (auto simp: getMergeBase_def split: option.splits if_splits)
  with assms obtain r where r: "order_by_limit_1 (first_common env) snd (common la ra) = Some r"
    and b: "b = fst r"
    by (auto simp: getMergeBase_def split: option.splits if_splits)
  from order_by_limit_1_Some [OF r] have "r \<in> set (common la ra)" by (simp add: set_least_rows)
  then have "fst r \<in> fst ` set (common la ra)" by (rule imageI)
  also have "fst ` set (common la ra) = fst ` set la \<inter> fst ` set ra"
    unfolding set_common image_image by simp
  finally have "fst r \<in> fst ` set la \<inter> fst ` set ra" .
  with la ra b show ?thesis by (simp add: is_ancestor_def)
qed



lemma those_Some_iff: "those xs \<noteq> None \<longleftrightarrow> None \<notin> set xs"
  by (induction xs) (auto split: option.splits)

lemma ancestors_from_terminates:
  "older_links cs \<Longrightarrow> (c < length cs \<longrightarrow> c < n) \<Longrightarrow> ancestors_from n cs c d \<noteq> None"
proof (induction n cs c d rule: ancestors_from.induct)
  case (1 cs c depth)
  then show ?case by auto
next
  case (2 fuel cs c depth)
  show ?case
  proof (cases "c < length cs")
    case True
    have "None \<notin> set (map (\<lambda>p. ancestors_from fuel cs p (depth + 1)) (links (cs ! c)))"
    proof
      assume "None \<in> set (map (\<lambda>p. ancestors_from fuel cs p (depth + 1)) (links (cs ! c)))"
      then obtain p where p: "p \<in> set (links (cs ! c))"
        and none: "ancestors_from fuel cs p (depth + 1) = None" by auto
      from older_linksD [OF "2.prems"(1) True] p have "p < c" by blast
      moreover from "2.prems"(2) True have "c < Suc fuel" by simp
      ultimately have "p < length cs \<longrightarrow> p < fuel" by simp
      from "2.IH" [OF True p "2.prems"(1) this] none show False by simp
    qed
    then have "those (map (\<lambda>p. ancestors_from fuel cs p (depth + 1)) (links (cs ! c))) \<noteq> None"
      by (simp only: those_Some_iff not_False_eq_True)
    with True show ?thesis by auto
  next
    case False
    then show ?thesis by simp
  qed
qed

lemma ancestors_terminates: "older_links (commits s) \<Longrightarrow> ancestors s c \<noteq> None"
  unfolding ancestors_def by (rule ancestors_from_terminates) auto




section \<open>Conflict detection\<close>

lemma set_insort_by: "set (insort_by le x ys) = insert x (set ys)"
  by (induction ys) auto

lemma set_sort_by: "set (sort_by le xs) = set xs"
  by (induction xs) (simp_all add: sort_by_def set_insort_by)

lemma sorted_insort_by:
  assumes total: "\<And>a b. le a b \<or> le b a" and trans: "\<And>a b c. le a b \<Longrightarrow> le b c \<Longrightarrow> le a c"
  shows "sorted_wrt le ys \<Longrightarrow> sorted_wrt le (insort_by le x ys)"
proof (induction ys)
  case Nil
  then show ?case by simp
next
  case (Cons y ys)
  show ?case
  proof (cases "le x y")
    case True
    with Cons.prems trans have "\<forall>z \<in> set ys. le x z" by auto
    with True Cons.prems show ?thesis by simp
  next
    case False
    with total have "le y x" by blast
    with False Cons show ?thesis by (auto simp: set_insort_by)
  qed
qed

lemma sorted_sort_by:
  assumes "\<And>a b. le a b \<or> le b a" and "\<And>a b c. le a b \<Longrightarrow> le b c \<Longrightarrow> le a c"
  shows "sorted_wrt le (sort_by le xs)"
proof (induction xs)
  case Nil
  then show ?case by (simp add: sort_by_def)
next
  case (Cons x xs)
  have "sort_by le (x # xs) = insort_by le x (sort_by le xs)" by (simp add: sort_by_def)
  with Cons sorted_insort_by [of le, OF assms] show ?case by simp
qed

lemma set_map_filter: "set (List.map_filter f xs) = {y. \<exists>x \<in> set xs. f x = Some y}"
  by (induction xs) (auto simp: List.map_filter_simps split: option.splits)

lemma snapshot_map_None: "snapshot_map snap p = None \<longleftrightarrow> p \<notin> set (map se_path snap)"
proof -
  have "map_of (rev (map (\<lambda>e. (se_path e, e)) snap)) p = None
          \<longleftrightarrow> p \<notin> fst ` set (rev (map (\<lambda>e. (se_path e, e)) snap))"
    by (rule map_of_eq_None_iff)
  then show ?thesis by (simp add: snapshot_map_def new_Map_def image_image)
qed

lemma exists_in_snapshot_map: "exists_in (snapshot_map snap p) \<longleftrightarrow> path_exists snap p"
  by (simp add: exists_in_def path_exists_def snapshot_map_None)

lemma differs_path_state:
  "differs (snapshot_map a p) (snapshot_map b p) \<longleftrightarrow> path_state a p \<noteq> path_state b p"
  by (auto simp: differs_def path_state_def exists_in_def symlink_or_false_def content_or_null_def
      split: option.splits)

lemma conflict_at_Some:
  assumes "conflict_at mb bm lm rm p = Some c"
  shows "ce_path c = p \<and> differs (lm p) (bm p) \<and> differs (rm p) (bm p) \<and> differs (lm p) (rm p)
       \<and> conflictKind c = classify (exists_in (bm p)) (exists_in (lm p)) (exists_in (rm p))
       \<and> baseExists c = exists_in (bm p) \<and> leftExists c = exists_in (lm p)
       \<and> rightExists c = exists_in (rm p) \<and> ce_mergeBaseCommitId c = mb"
  using assms by (auto simp: conflict_at_def Let_def split: if_splits)

lemma conflict_at_None:
  "conflict_at mb bm lm rm p = None
     \<longleftrightarrow> \<not> (differs (lm p) (bm p) \<and> differs (rm p) (bm p) \<and> differs (lm p) (rm p))"
  by (simp add: conflict_at_def Let_def)

lemma not_differs_absent:
  "p \<notin> set (all_paths base left right) \<Longrightarrow> \<not> differs (snapshot_map left p) (snapshot_map base p)"
proof -
  assume "p \<notin> set (all_paths base left right)"
  then have "snapshot_map left p = None" and "snapshot_map base p = None"
    by (simp_all add: all_paths_def set_new_Set snapshot_map_None)
  then show ?thesis by (simp add: differs_def)
qed

lemma detect_conflicts_paths:
  "p \<in> set (map ce_path (detect_conflicts env mb base left right))
     \<longleftrightarrow> path_state left p \<noteq> path_state base p \<and> path_state right p \<noteq> path_state base p
          \<and> path_state left p \<noteq> path_state right p"
proof -
  let ?f = "conflict_at mb (snapshot_map base) (snapshot_map left) (snapshot_map right)"
  have "p \<in> set (map ce_path (detect_conflicts env mb base left right))
          \<longleftrightarrow> (\<exists>q \<in> set (all_paths base left right). \<exists>c. ?f q = Some c \<and> ce_path c = p)"
    by (auto simp: detect_conflicts_def set_sort_by set_map_filter)
  also have "\<dots> \<longleftrightarrow> p \<in> set (all_paths base left right) \<and> ?f p \<noteq> None"
    using conflict_at_Some [of mb "snapshot_map base" "snapshot_map left" "snapshot_map right"]
    by (metis not_Some_eq)
  also have "\<dots> \<longleftrightarrow> ?f p \<noteq> None"
    using not_differs_absent [of p base left right] by (auto simp: conflict_at_None)
  also have "\<dots> \<longleftrightarrow> path_state left p \<noteq> path_state base p \<and> path_state right p \<noteq> path_state base p
          \<and> path_state left p \<noteq> path_state right p"
    by (simp add: conflict_at_None differs_path_state)
  finally show ?thesis .
qed

lemma detect_conflicts_kind:
  assumes "c \<in> set (detect_conflicts env mb base left right)"
  shows "conflictKind c =
           (if path_exists base (ce_path c)
               \<and> (\<not> path_exists left (ce_path c) \<or> \<not> path_exists right (ce_path c))
            then delete_modify
            else if \<not> path_exists base (ce_path c) \<and> path_exists left (ce_path c)
                    \<and> path_exists right (ce_path c)
            then add_add else modify_modify)"
proof -
  from assms obtain q where
    "conflict_at mb (snapshot_map base) (snapshot_map left) (snapshot_map right) q = Some c"
    by (auto simp: detect_conflicts_def set_sort_by set_map_filter)
  from conflict_at_Some [OF this] show ?thesis
    by (simp add: classify_def exists_in_snapshot_map)
qed

lemma detect_conflicts_sorted:
  assumes "comparator_total (localeCompare env)" and "comparator_transitive (localeCompare env)"
  shows "sorted_wrt (\<lambda>a b. localeCompare env (ce_path a) (ce_path b) \<le> 0)
           (detect_conflicts env mb base left right)"
  unfolding detect_conflicts_def
proof (rule sorted_sort_by)
  fix a b c :: conflict_entry
  show "localeCompare env (ce_path a) (ce_path b) \<le> 0 \<or> localeCompare env (ce_path b) (ce_path a) \<le> 0"
    using assms(1) unfolding comparator_total_def by blast
  show "localeCompare env (ce_path a) (ce_path b) \<le> 0 \<Longrightarrow> localeCompare env (ce_path b) (ce_path c) \<le> 0
          \<Longrightarrow> localeCompare env (ce_path a) (ce_path c) \<le> 0"
    using assms(2) unfolding comparator_transitive_def by blast
qed

lemma code_unit_compare_le: "localeCompare code_unit_env a b \<le> 0 \<longleftrightarrow> a \<le> b"
  by (auto simp: code_unit_env_def)

lemma code_unit_env_total: "comparator_total (localeCompare code_unit_env)"
  unfolding comparator_total_def code_unit_compare_le by (simp add: linear)

lemma code_unit_env_transitive: "comparator_transitive (localeCompare code_unit_env)"
  unfolding comparator_transitive_def code_unit_compare_le by auto

text \<open>
  C5. When the merge base and the three snapshots with content are computed,
  \<open>getConflicts\<close> returns a list that reports a path exactly when the path's state (the
  triple of existence, symlink flag and content) at both sides differs from its state at the
  merge base and the two sides differ from each other; every reported conflict is
  \<open>delete/modify\<close> when the path exists at the base and is missing on a side, \<open>add/add\<close>
  when it is missing at the base and exists on both sides, \<open>modify/modify\<close> otherwise; and the
  list is sorted by path with respect to the comparator given to \<open>sort\<close>
  (\<open>localeCompare\<close>, a total and transitive comparison).
\<close>

theorem getConflicts_characterisation:
  assumes "getMergeBase env s l r = Returns mb"
    and "getCommitSnapshotWithContent env s mb = Returns base"
    and "getCommitSnapshotWithContent env s l = Returns left"
    and "getCommitSnapshotWithContent env s r = Returns right"
    and "comparator_total (localeCompare env)" and "comparator_transitive (localeCompare env)"
  shows "\<exists>cs. getConflicts env s l r = Returns cs
      \<and> (\<forall>p. p \<in> set (map ce_path cs)
             \<longleftrightarrow> path_state left p \<noteq> path_state base p \<and> path_state right p \<noteq> path_state base p
                  \<and> path_state left p \<noteq> path_state right p)
      \<and> (\<forall>c \<in> set cs.
            conflictKind c =
              (if path_exists base (ce_path c)
                  \<and> (\<not> path_exists left (ce_path c) \<or> \<not> path_exists right (ce_path c))
               then delete_modify
               else if \<not> path_exists base (ce_path c) \<and> path_exists left (ce_path c)
                       \<and> path_exists right (ce_path c)
               then add_add else modify_modify))
      \<and> sorted_wrt (\<lambda>a b. localeCompare env (ce_path a) (ce_path b) \<le> 0) cs"
proof -
  have "getConflicts env s l r = Returns (detect_conflicts env mb base left right)"
    by (simp add: getConflicts_def assms(1-4))
  moreover have "\<forall>p. p \<in> set (map ce_path (detect_conflicts env mb base left right))
             \<longleftrightarrow> path_state left p \<noteq> path_state base p \<and> path_state right p \<noteq> path_state base p
                  \<and> path_state left p \<noteq> path_state right p"
    using detect_conflicts_paths by blast
  moreover have "\<forall>c \<in> set (detect_conflicts env mb base left right).
            conflictKind c =
              (if path_exists base (ce_path c)
                  \<and> (\<not> path_exists left (ce_path c) \<or> \<not> path_exists right (ce_path c))
               then delete_modify
               else if \<not> path_exists base (ce_path c) \<and> path_exists left (ce_path c)
                       \<and> path_exists right (ce_path c)
               then add_add else modify_modify)"
    using detect_conflicts_kind by blast
  moreover have "sorted_wrt (\<lambda>a b. localeCompare env (ce_path a) (ce_path b) \<le> 0)
      (detect_conflicts env mb base left right)"
    using assms(5,6) by (rule detect_conflicts_sorted)
  ultimately show ?thesis by blast
qed



theorem getConflicts_characterisation_witness:
  "getMergeBase code_unit_env three_conflicts 1 2 = Returns 0
   \<and> getCommitSnapshotWithContent code_unit_env three_conflicts 0
       = Returns [entry ''/a'' ''base'', entry ''/d'' ''base'']
   \<and> getCommitSnapshotWithContent code_unit_env three_conflicts 1
       = Returns [entry ''/a'' ''left'', entry ''/n'' ''left'']
   \<and> getCommitSnapshotWithContent code_unit_env three_conflicts 2
       = Returns [entry ''/a'' ''right'', entry ''/d'' ''right'', entry ''/n'' ''right'']
   \<and> comparator_total (localeCompare code_unit_env)
   \<and> comparator_transitive (localeCompare code_unit_env)
   \<and> (\<exists>cs. getConflicts code_unit_env three_conflicts 1 2 = Returns cs
         \<and> map ce_path cs = [str ''/a'', str ''/d'', str ''/n'']
         \<and> map conflictKind cs = [modify_modify, delete_modify, add_add]
         \<and> sorted_wrt (\<lambda>a b. localeCompare code_unit_env (ce_path a) (ce_path b) \<le> 0) cs)"
proof -
  have 1: "getMergeBase code_unit_env three_conflicts 1 2 = Returns 0" by code_simp
  have 2: "getCommitSnapshotWithContent code_unit_env three_conflicts 0
       = Returns [entry ''/a'' ''base'', entry ''/d'' ''base'']" by code_simp
  have 3: "getCommitSnapshotWithContent code_unit_env three_conflicts 1
       = Returns [entry ''/a'' ''left'', entry ''/n'' ''left'']" by code_simp
  have 4: "getCommitSnapshotWithContent code_unit_env three_conflicts 2
       = Returns [entry ''/a'' ''right'', entry ''/d'' ''right'', entry ''/n'' ''right'']"
    by code_simp
  note 5 = code_unit_env_total and 6 = code_unit_env_transitive
  from getConflicts_characterisation [OF 1 2 3 4 5 6] obtain cs where
    cs: "getConflicts code_unit_env three_conflicts 1 2 = Returns cs"
    and sorted: "sorted_wrt (\<lambda>a b. localeCompare code_unit_env (ce_path a) (ce_path b) \<le> 0) cs"
    by blast
  have 7: "(case getConflicts code_unit_env three_conflicts 1 2 of
              Returns xs \<Rightarrow> map ce_path xs | _ \<Rightarrow> []) = [str ''/a'', str ''/d'', str ''/n'']"
    by code_simp
  have 8: "(case getConflicts code_unit_env three_conflicts 1 2 of
              Returns xs \<Rightarrow> map conflictKind xs | _ \<Rightarrow> []) = [modify_modify, delete_modify, add_add]"
    by code_simp
  from cs 7 8 have "map ce_path cs = [str ''/a'', str ''/d'', str ''/n'']"
    and "map conflictKind cs = [modify_modify, delete_modify, add_add]" by simp_all
  with cs sorted have ex: "\<exists>cs. getConflicts code_unit_env three_conflicts 1 2 = Returns cs
         \<and> map ce_path cs = [str ''/a'', str ''/d'', str ''/n'']
         \<and> map conflictKind cs = [modify_modify, delete_modify, add_add]
         \<and> sorted_wrt (\<lambda>a b. localeCompare code_unit_env (ce_path a) (ce_path b) \<le> 0) cs"
    by (intro exI [of _ cs] conjI)
  show ?thesis by (intro conjI) (rule 1 2 3 4 5 6 ex)+
qed

section \<open>Rebase\<close>

lemma updateBranchHead_Returns:
  assumes "updateBranchHead s b h = (Returns u, s')" and "b < length (branches s)"
  shows "s' = s\<lparr>branches := (branches s)[b := (branches s ! b)\<lparr>head_commit_id := Some h\<rparr>]\<rparr>"
  using assms by (auto simp: updateBranchHead_def row_def split: option.splits if_splits)

lemma rebase_fast_forward_Returns:
  assumes "rebase_fast_forward s result b ho = (Returns res, s')" and "b < length (branches s)"
  shows "s' = s\<lparr>branches := (branches s)[b := (branches s ! b)\<lparr>head_commit_id := Some ho\<rparr>]\<rparr>
       \<and> res = result\<lparr>rr_operation := fast_forward, rr_newBranchHeadCommitId := Some ho\<rparr>"
proof -
  from assms(1) obtain u where u: "updateBranchHead s b ho = (Returns u, s')"
    and res: "res = result\<lparr>rr_operation := fast_forward, rr_newBranchHeadCommitId := Some ho\<rparr>"
    by (auto simp: rebase_fast_forward_def split: prod.splits outcome.splits)
  from updateBranchHead_Returns [OF u assms(2)] res show ?thesis by simp
qed

lemma rebase_apply_Returns:
  assumes "rebase_apply s result b ho msg fs = (Returns res, s')"
  shows "rr_operation res = rebased"
  using assms by (auto simp: rebase_apply_def split: prod.splits outcome.splits)

lemma rebase_heads_fast_forward:
  assumes "rebase_heads env s rp b ob msg hb ho = (Returns res, s')"
    and "rr_operation res = fast_forward" and "b < length (branches s)"
  shows "s' = s\<lparr>branches := (branches s)[b := (branches s ! b)\<lparr>head_commit_id := Some ho\<rparr>]\<rparr>
       \<and> rr_rebasedCommitId res = None \<and> rr_newBranchHeadCommitId res = Some ho"
proof -
  from assms(1) obtain mb where mb: "getMergeBase env s hb ho = Returns mb"
    by (auto simp: rebase_heads_def Let_def split: outcome.splits)
  let ?result = "\<lparr>rr_operation = already_up_to_date, rr_repositoryId = rp,
                 rr_branchId = b, rr_ontoBranchId = ob,
                 rr_mergeBaseCommitId = Some mb,
                 rr_previousBranchHeadCommitId = Some hb,
                 rr_ontoHeadCommitId = Some ho, rr_rebasedCommitId = None,
                 rr_newBranchHeadCommitId = Some hb, rr_appliedFileCount = 0\<rparr>"
  have "rebase_fast_forward s ?result b ho = (Returns res, s')"
  proof (cases "mb = ho")
    case True
    with assms(1) mb have "rr_operation res = already_up_to_date"
      by (auto simp: rebase_heads_def Let_def)
    with assms(2) show ?thesis by simp
  next
    case ne: False
    show ?thesis
    proof (cases "mb = hb")
      case True
      with assms(1) mb ne show ?thesis by (simp add: rebase_heads_def Let_def)
    next
      case False
      with assms(1) mb ne obtain cs where cs: "getConflicts env s hb ho = Returns cs"
        by (auto simp: rebase_heads_def Let_def split: outcome.splits)
      with assms(1) mb ne False have empty: "\<not> length cs > 0"
        by (auto simp: rebase_heads_def Let_def split: if_splits)
      with assms(1) mb ne False cs obtain fs where fs: "rebase_patch env s mb ho hb = Returns fs"
        by (auto simp: rebase_heads_def Let_def split: outcome.splits)
      show ?thesis
      proof (cases "length fs = 0")
        case True
        with assms(1) mb ne False cs empty fs show ?thesis by (simp add: rebase_heads_def Let_def)
      next
        case nonempty: False
        with assms(1) mb ne False cs empty fs
        have "rebase_apply s ?result b ho msg fs = (Returns res, s')"
          by (simp add: rebase_heads_def Let_def)
        from rebase_apply_Returns [OF this] assms(2) show ?thesis by simp
      qed
    qed
  qed
  from rebase_fast_forward_Returns [OF this assms(3)] show ?thesis by simp
qed


lemma getConflicts_Returns_merge_base:
  assumes "getConflicts env s x y = Returns cs"
  shows "\<exists>mb. getMergeBase env s x y = Returns mb"
  using assms by (cases "getMergeBase env s x y") (simp_all add: getConflicts_def)


lemma not_differs_same: "\<not> differs a a"
  by (simp add: differs_def)

lemma map_filter_None: "(\<forall>x \<in> set xs. f x = None) \<Longrightarrow> List.map_filter f xs = []"
  by (induction xs) (simp_all add: List.map_filter_simps)

lemma detect_conflicts_base_is_right: "detect_conflicts env mb base left base = []"
proof -
  have "\<forall>p \<in> set (all_paths base left base).
          conflict_at mb (snapshot_map base) (snapshot_map left) (snapshot_map base) p = None"
    by (simp add: conflict_at_None not_differs_same)
  then show ?thesis by (simp add: detect_conflicts_def map_filter_None sort_by_def)
qed

lemma detect_conflicts_base_is_left: "detect_conflicts env mb base base right = []"
proof -
  have "\<forall>p \<in> set (all_paths base base right).
          conflict_at mb (snapshot_map base) (snapshot_map base) (snapshot_map right) p = None"
    by (simp add: conflict_at_None not_differs_same)
  then show ?thesis by (simp add: detect_conflicts_def map_filter_None sort_by_def)
qed

lemma and_then_Returns:
  "and_then m f = Returns y \<longleftrightarrow> (\<exists>x. m = Returns x \<and> f x = Returns y)"
  by (cases m) simp_all

lemma getConflicts_nonempty_merge_base:
  assumes "getConflicts env s x y = Returns cs" and "cs \<noteq> []"
  shows "\<exists>mb. getMergeBase env s x y = Returns mb \<and> mb \<noteq> x \<and> mb \<noteq> y"
proof -
  from assms(1) obtain mb base left right where mb: "getMergeBase env s x y = Returns mb"
    and base: "getCommitSnapshotWithContent env s mb = Returns base"
    and left: "getCommitSnapshotWithContent env s x = Returns left"
    and right: "getCommitSnapshotWithContent env s y = Returns right"
    and cs: "cs = detect_conflicts env mb base left right"
    unfolding getConflicts_def and_then_Returns by auto
  have "mb \<noteq> x"
  proof
    assume "mb = x"
    with base left have "left = base" by simp
    with cs assms(2) show False by (simp add: detect_conflicts_base_is_left)
  qed
  moreover have "mb \<noteq> y"
  proof
    assume "mb = y"
    with base right have "right = base" by simp
    with cs assms(2) show False by (simp add: detect_conflicts_base_is_right)
  qed
  ultimately show ?thesis using mb by blast
qed

text \<open>
  C7. Whenever \<open>rebaseBranch\<close> returns the fast-forward outcome (by either of its two
  paths: the merge base is the branch's head, or the computed patch is empty), the commits,
  the file deltas and the repositories are unchanged, and the branches differ from before
  only in the head of the rebased branch, which is now the head of the onto branch; no
  rebased commit is reported.
\<close>

theorem rebase_fast_forward_frame:
  assumes "rebaseBranch env s b ob msg = (Returns res, s')" and "rr_operation res = fast_forward"
  shows "commits s' = commits s \<and> files s' = files s \<and> repositories s' = repositories s
       \<and> b < length (branches s) \<and> ob < length (branches s)
       \<and> head_commit_id (branches s ! ob) \<noteq> None
       \<and> branches s' = (branches s)[b := (branches s ! b)\<lparr>head_commit_id := head_commit_id (branches s ! ob)\<rparr>]
       \<and> rr_rebasedCommitId res = None
       \<and> rr_newBranchHeadCommitId res = head_commit_id (branches s ! ob)"
proof -
  from assms(1) have b: "b < length (branches s)" and ob: "ob < length (branches s)"
    by (auto simp: rebaseBranch_def row_def split: if_splits)
  with assms obtain hb ho where hb: "head_commit_id (branches s ! b) = Some hb"
    and ho: "head_commit_id (branches s ! ob) = Some ho"
    and rh: "rebase_heads env s (branch_repository_id (branches s ! b)) b ob msg hb ho = (Returns res, s')"
    by (auto simp: rebaseBranch_def row_def split: if_splits option.splits)
  from rebase_heads_fast_forward [OF rh assms(2) b] b ob ho show ?thesis by simp
qed


theorem rebase_fast_forward_frame_witness:
  "rebaseBranch code_unit_env same_change_store 1 0 None
     = (Returns (fast_forward_result 1 2),
        same_change_store\<lparr>branches := [branch_in_R ''main'' (Some 2), branch_in_R ''feature'' (Some 2)]\<rparr>)
   \<and> rr_operation (fast_forward_result 1 2) = fast_forward
   \<and> rebaseBranch code_unit_env behind_store 1 0 None
     = (Returns (fast_forward_result 0 1),
        behind_store\<lparr>branches := [branch_in_R ''main'' (Some 1), branch_in_R ''feature'' (Some 1)]\<rparr>)
   \<and> rr_operation (fast_forward_result 0 1) = fast_forward
   \<and> commits (same_change_store\<lparr>branches := [branch_in_R ''main'' (Some 2), branch_in_R ''feature'' (Some 2)]\<rparr>)
       = commits same_change_store
   \<and> files (behind_store\<lparr>branches := [branch_in_R ''main'' (Some 1), branch_in_R ''feature'' (Some 1)]\<rparr>)
       = files behind_store"
proof -
  let ?s1 = "same_change_store\<lparr>branches := [branch_in_R ''main'' (Some 2), branch_in_R ''feature'' (Some 2)]\<rparr>"
  let ?s2 = "behind_store\<lparr>branches := [branch_in_R ''main'' (Some 1), branch_in_R ''feature'' (Some 1)]\<rparr>"
  have 1: "rebaseBranch code_unit_env same_change_store 1 0 None = (Returns (fast_forward_result 1 2), ?s1)"
    by code_simp
  have 2: "rr_operation (fast_forward_result 1 2) = fast_forward" by (simp add: fast_forward_result_def)
  have 3: "rebaseBranch code_unit_env behind_store 1 0 None = (Returns (fast_forward_result 0 1), ?s2)"
    by code_simp
  have 4: "rr_operation (fast_forward_result 0 1) = fast_forward" by (simp add: fast_forward_result_def)
  from rebase_fast_forward_frame [OF 1 2] have 5: "commits ?s1 = commits same_change_store" by blast
  from rebase_fast_forward_frame [OF 3 4] have 6: "files ?s2 = files behind_store" by blast
  show ?thesis by (intro conjI) (rule 1 2 3 4 5 6)+
qed

text \<open>
  C1 (amended). For two different branches of one repository with heads \<open>hb\<close> and \<open>ho\<close>,
  when \<open>getConflicts hb ho\<close> is not empty, \<open>rebaseBranch\<close> throws an error made of the
  number of conflicts and the two head commits, and the store is left as it was. The error
  does not carry the conflicts themselves. Heads in an ancestor relationship need no
  hypothesis of their own: when the merge base is one of the heads, that side has not
  changed from the base and no conflict is detected.
\<close>

theorem rebase_blocked:
  assumes "row (branches s) b = Some br" and "row (branches s) ob = Some onto"
    and "branch_repository_id br = branch_repository_id onto" and "b \<noteq> ob"
    and "head_commit_id br = Some hb" and "head_commit_id onto = Some ho"
    and "getConflicts env s hb ho = Returns cs" and "cs \<noteq> []"
  shows "rebaseBranch env s b ob msg = (Throws (RebaseBlocked (length cs) hb ho), s)"
proof -
  from getConflicts_nonempty_merge_base [OF assms(7,8)] obtain mb
    where "getMergeBase env s hb ho = Returns mb" and "mb \<noteq> hb" and "mb \<noteq> ho" by blast
  with assms show ?thesis by (simp add: rebaseBranch_def rebase_heads_def Let_def)
qed

theorem rebase_blocked_witness:
  "row (branches (conflict_store ''/a.txt'')) 1 = Some (branch_in_R ''feature'' (Some 1))
   \<and> row (branches (conflict_store ''/a.txt'')) 0 = Some (branch_in_R ''main'' (Some 2))
   \<and> branch_repository_id (branch_in_R ''feature'' (Some 1)) = branch_repository_id (branch_in_R ''main'' (Some 2))
   \<and> (1::nat) \<noteq> 0
   \<and> head_commit_id (branch_in_R ''feature'' (Some 1)) = Some 1
   \<and> head_commit_id (branch_in_R ''main'' (Some 2)) = Some 2
   \<and> getConflicts code_unit_env (conflict_store ''/a.txt'') 1 2
       = Returns [modify_conflict ''/a.txt'' ''world'' ''there'']
   \<and> [modify_conflict ''/a.txt'' ''world'' ''there''] \<noteq> []
   \<and> rebaseBranch code_unit_env (conflict_store ''/a.txt'') 1 0 None
       = (Throws (RebaseBlocked 1 1 2), conflict_store ''/a.txt'')"
proof -
  let ?s = "conflict_store ''/a.txt''"
  have 1: "row (branches ?s) 1 = Some (branch_in_R ''feature'' (Some 1))" by code_simp
  have 2: "row (branches ?s) 0 = Some (branch_in_R ''main'' (Some 2))" by code_simp
  have 3: "branch_repository_id (branch_in_R ''feature'' (Some 1))
             = branch_repository_id (branch_in_R ''main'' (Some 2))" by code_simp
  have 4: "(1::nat) \<noteq> 0" by simp
  have 5: "head_commit_id (branch_in_R ''feature'' (Some 1)) = Some 1" by code_simp
  have 6: "head_commit_id (branch_in_R ''main'' (Some 2)) = Some 2" by code_simp
  have 9: "getConflicts code_unit_env ?s 1 2 = Returns [modify_conflict ''/a.txt'' ''world'' ''there'']"
    by code_simp
  have 10: "[modify_conflict ''/a.txt'' ''world'' ''there''] \<noteq> []" by simp
  from rebase_blocked [OF 1 2 3 4 5 6 9 10, of None]
  have 11: "rebaseBranch code_unit_env ?s 1 0 None = (Throws (RebaseBlocked 1 1 2), ?s)" by simp
  show ?thesis by (intro conjI) (rule 1 2 3 4 5 6 9 10 11)+
qed


text \<open>
  The claim as stated fails: two stores whose conflicts differ (one on \<open>/a.txt\<close>, one on
  \<open>/b.txt\<close>) make \<open>rebaseBranch\<close> throw the same error, so the error does not determine
  the list of conflicts.
\<close>

theorem rebase_blocked_counterexample:
  "rebaseBranch code_unit_env (conflict_store ''/a.txt'') 1 0 None
     = (Throws (RebaseBlocked 1 1 2), conflict_store ''/a.txt'')
   \<and> rebaseBranch code_unit_env (conflict_store ''/b.txt'') 1 0 None
     = (Throws (RebaseBlocked 1 1 2), conflict_store ''/b.txt'')
   \<and> getConflicts code_unit_env (conflict_store ''/a.txt'') 1 2
       = Returns [modify_conflict ''/a.txt'' ''world'' ''there'']
   \<and> getConflicts code_unit_env (conflict_store ''/b.txt'') 1 2
       = Returns [modify_conflict ''/b.txt'' ''world'' ''there'']
   \<and> [modify_conflict ''/a.txt'' ''world'' ''there''] \<noteq> [modify_conflict ''/b.txt'' ''world'' ''there'']"
proof -
  have 1: "rebaseBranch code_unit_env (conflict_store ''/a.txt'') 1 0 None
     = (Throws (RebaseBlocked 1 1 2), conflict_store ''/a.txt'')" by code_simp
  have 2: "rebaseBranch code_unit_env (conflict_store ''/b.txt'') 1 0 None
     = (Throws (RebaseBlocked 1 1 2), conflict_store ''/b.txt'')" by code_simp
  have 3: "getConflicts code_unit_env (conflict_store ''/a.txt'') 1 2
       = Returns [modify_conflict ''/a.txt'' ''world'' ''there'']" by code_simp
  have 4: "getConflicts code_unit_env (conflict_store ''/b.txt'') 1 2
       = Returns [modify_conflict ''/b.txt'' ''world'' ''there'']" by code_simp
  have 5: "[modify_conflict ''/a.txt'' ''world'' ''there''] \<noteq> [modify_conflict ''/b.txt'' ''world'' ''there'']"
    by code_simp
  show ?thesis by (intro conjI) (rule 1 2 3 4 5)+
qed

section \<open>Finalizing a merge\<close>

lemma missing_resolutions_nonempty:
  "missing_resolutions s c cs \<noteq> [] \<Longrightarrow> 0 < length cs \<and> 0 < length (missing_resolutions s c cs)"
  by (cases cs) (auto simp: missing_resolutions_def)

text \<open>
  C2 (amended). For a merge commit with merged-from commit \<open>m\<close> and target head \<open>h\<close> (the
  head of the target branch, which must be the commit's parent, or the parent itself when no
  branch is given), when some conflict detected between \<open>h\<close> and \<open>m\<close> has no delta row
  recorded against the commit, \<open>finalizeCommit\<close> throws an error made of the number of such
  conflict paths and the commit, and the store is left as it was. The error does not list
  the paths.
\<close>

theorem finalize_unresolved:
  assumes "row (commits s) commitId = Some k" and "merged_from_commit_id k = Some m"
    and "target_head s k target = Returns (Some h)"
    and "getConflicts env s h m = Returns cs"
    and "missing_resolutions s commitId cs \<noteq> []"
  shows "finalizeCommit env s commitId target
           = (Throws (MergeNeedsResolutions (length (missing_resolutions s commitId cs)) commitId), s)"
proof -
  from getConflicts_Returns_merge_base [OF assms(4)] obtain mb
    where "getMergeBase env s h m = Returns mb" by blast
  with assms missing_resolutions_nonempty [OF assms(5)] show ?thesis
    by (simp add: finalizeCommit_def finalize_merge_def Let_def)
qed

theorem finalize_unresolved_witness:
  "row (commits (merge_store ''/a.txt'' [])) 3 = Some (commit_in_R (Some 2) (Some 1))
   \<and> merged_from_commit_id (commit_in_R (Some 2) (Some 1)) = Some 1
   \<and> target_head (merge_store ''/a.txt'' []) (commit_in_R (Some 2) (Some 1)) (Some 0) = Returns (Some 2)
   \<and> getConflicts code_unit_env (merge_store ''/a.txt'' []) 2 1
       = Returns [modify_conflict ''/a.txt'' ''there'' ''world'']
   \<and> missing_resolutions (merge_store ''/a.txt'' []) 3 [modify_conflict ''/a.txt'' ''there'' ''world'']
       = [modify_conflict ''/a.txt'' ''there'' ''world'']
   \<and> finalizeCommit code_unit_env (merge_store ''/a.txt'' []) 3 (Some 0)
       = (Throws (MergeNeedsResolutions 1 3), merge_store ''/a.txt'' [])
   \<and> fst (finalizeCommit code_unit_env
              (merge_store ''/a.txt'' [plain_file 3 ''/a.txt'' ''resolved'']) 3 (Some 0))
       = Returns merged_result"
proof -
  let ?s = "merge_store ''/a.txt'' []"
  let ?c = "modify_conflict ''/a.txt'' ''there'' ''world''"
  have 1: "row (commits ?s) 3 = Some (commit_in_R (Some 2) (Some 1))" by code_simp
  have 2: "merged_from_commit_id (commit_in_R (Some 2) (Some 1)) = Some 1" by code_simp
  have 3: "target_head ?s (commit_in_R (Some 2) (Some 1)) (Some 0) = Returns (Some 2)" by code_simp
  have 5: "getConflicts code_unit_env ?s 2 1 = Returns [?c]" by code_simp
  have 6: "missing_resolutions ?s 3 [?c] = [?c]" by code_simp
  then have 7: "missing_resolutions ?s 3 [?c] \<noteq> []" by simp
  from finalize_unresolved [OF 1 2 3 5 7] 6
  have 8: "finalizeCommit code_unit_env ?s 3 (Some 0) = (Throws (MergeNeedsResolutions 1 3), ?s)"
    by simp
  have 9: "fst (finalizeCommit code_unit_env
              (merge_store ''/a.txt'' [plain_file 3 ''/a.txt'' ''resolved'']) 3 (Some 0))
       = Returns merged_result" by code_simp
  show ?thesis by (intro conjI) (rule 1 2 3 5 6 8 9)+
qed

text \<open>
  The claim as stated fails: two merge commits whose missing resolutions are for different
  paths make \<open>finalizeCommit\<close> throw the same error.
\<close>

theorem finalize_unresolved_counterexample:
  "finalizeCommit code_unit_env (merge_store ''/a.txt'' []) 3 (Some 0)
     = (Throws (MergeNeedsResolutions 1 3), merge_store ''/a.txt'' [])
   \<and> finalizeCommit code_unit_env (merge_store ''/b.txt'' []) 3 (Some 0)
     = (Throws (MergeNeedsResolutions 1 3), merge_store ''/b.txt'' [])
   \<and> getConflicts code_unit_env (merge_store ''/a.txt'' []) 2 1
       = Returns [modify_conflict ''/a.txt'' ''there'' ''world'']
   \<and> getConflicts code_unit_env (merge_store ''/b.txt'' []) 2 1
       = Returns [modify_conflict ''/b.txt'' ''there'' ''world'']
   \<and> map ce_path (missing_resolutions (merge_store ''/a.txt'' []) 3
         [modify_conflict ''/a.txt'' ''there'' ''world'']) = [str ''/a.txt'']
   \<and> map ce_path (missing_resolutions (merge_store ''/b.txt'' []) 3
         [modify_conflict ''/b.txt'' ''there'' ''world'']) = [str ''/b.txt'']
   \<and> [str ''/a.txt''] \<noteq> [str ''/b.txt'']"
proof -
  have 1: "finalizeCommit code_unit_env (merge_store ''/a.txt'' []) 3 (Some 0)
     = (Throws (MergeNeedsResolutions 1 3), merge_store ''/a.txt'' [])" by code_simp
  have 2: "finalizeCommit code_unit_env (merge_store ''/b.txt'' []) 3 (Some 0)
     = (Throws (MergeNeedsResolutions 1 3), merge_store ''/b.txt'' [])" by code_simp
  have 3: "getConflicts code_unit_env (merge_store ''/a.txt'' []) 2 1
       = Returns [modify_conflict ''/a.txt'' ''there'' ''world'']" by code_simp
  have 4: "getConflicts code_unit_env (merge_store ''/b.txt'' []) 2 1
       = Returns [modify_conflict ''/b.txt'' ''there'' ''world'']" by code_simp
  have 5: "map ce_path (missing_resolutions (merge_store ''/a.txt'' []) 3
         [modify_conflict ''/a.txt'' ''there'' ''world'']) = [str ''/a.txt'']" by code_simp
  have 6: "map ce_path (missing_resolutions (merge_store ''/b.txt'' []) 3
         [modify_conflict ''/b.txt'' ''there'' ''world'']) = [str ''/b.txt'']" by code_simp
  have 7: "[str ''/a.txt''] \<noteq> [str ''/b.txt'']" by code_simp
  show ?thesis by (intro conjI) (rule 1 2 3 4 5 6 7)+
qed

end
